theory Spec2Isabelle
  imports Main "HOL-Library.Word" "HOL-Library.Multiset" "HOL-Library.Sublist"
begin

section \<open>convert\_flexible\_list: manifest to key/value store\<close>

text \<open>
  The program of \<^verbatim>\<open>tools/convert_flexible_list.cpp\<close> reads a list file of
  \<^verbatim>\<open>path label\<close> pairs, optionally shuffles them, opens a leveldb or lmdb
  database and stores one record per pair, committing every 1000 records.
  Its \<^verbatim>\<open>main\<close> is embedded here as a function from the parsed command line and
  the outside world (files, destination, failing library calls, random draws) to
  the way the process ends and the sequence of database calls it has issued.
\<close>

subsection \<open>Characters and decimal numbers\<close>

text \<open>The white space of the classic C locale, which stream extraction skips.\<close>

definition isspace :: "char \<Rightarrow> bool" where
  "isspace c = (c = CHR '' '' \<or> c = CHR 0x09 \<or> c = CHR 0x0A \<or> c = CHR 0x0B
                \<or> c = CHR 0x0C \<or> c = CHR 0x0D)"

definition isdigit :: "char \<Rightarrow> bool" where
  "isdigit c = (c \<in> set ''0123456789'')"

definition digit_val :: "char \<Rightarrow> nat" where
  "digit_val c = of_char c - 48"

definition digit_char :: "nat \<Rightarrow> char" where
  "digit_char d = ''0123456789'' ! d"

text \<open>The number a string of decimal digits spells.\<close>

definition decimal_value :: "string \<Rightarrow> int" where
  "decimal_value ds = foldl (\<lambda>acc c. 10 * acc + int (digit_val c)) 0 ds"

text \<open>
  The decimal digits of a number that is not negative, most significant first, as
  \<^verbatim>\<open>%d\<close> prints them.
\<close>

function digits_of :: "int \<Rightarrow> string" where
  "digits_of n = (if n < 10 then [digit_char (nat n)]
                  else digits_of (n div 10) @ [digit_char (nat (n mod 10))])"
  by pat_completeness auto
termination
  by (relation "measure nat") auto

declare digits_of.simps [simp del]

definition INT_MAX :: int where
  "INT_MAX = 2147483647"

definition INT_MIN :: int where
  "INT_MIN = - 2147483648"

subsection \<open>Reading the list file\<close>

text \<open>
  \<^verbatim>\<open>infile >> filename\<close>: skip white space, then take characters up to the next
  white space or the end of the stream. Extraction fails when no character is
  taken. The result is the string and the rest of the stream.
\<close>

definition extract_string :: "string \<Rightarrow> (string \<times> string) option" where
  "extract_string s =
     (let s1 = dropWhile isspace s
      in if s1 = [] then None
         else Some (takeWhile (\<lambda>c. \<not> isspace c) s1, dropWhile (\<lambda>c. \<not> isspace c) s1))"

text \<open>
  \<^verbatim>\<open>infile >> label\<close> for an \<^verbatim>\<open>int\<close> in the default (decimal) format: skip
  white space, take an optional sign and then digits as long as there are any.
  Extraction fails when there is no digit, and when the number does not fit an
  \<^verbatim>\<open>int\<close>. The field ends at the first character that is not a digit, which stays
  in the stream.
\<close>

definition extract_int :: "string \<Rightarrow> (int \<times> string) option" where
  "extract_int s =
     (let s1 = dropWhile isspace s;
          neg = (case s1 of [] \<Rightarrow> False | c # _ \<Rightarrow> c = CHR ''-'');
          s2 = (case s1 of [] \<Rightarrow> []
                | c # cs \<Rightarrow> if c = CHR ''-'' \<or> c = CHR ''+'' then cs else s1);
          ds = takeWhile isdigit s2;
          v = (if neg then - decimal_value ds else decimal_value ds)
      in if ds = [] \<or> v < INT_MIN \<or> INT_MAX < v then None
         else Some (v, dropWhile isdigit s2))"

lemma extract_string_shorter:
  "extract_string s = Some (t, r) \<Longrightarrow> length r < length s"
proof -
  assume a: "extract_string s = Some (t, r)"
  define s1 where "s1 = dropWhile isspace s"
  from a have ne: "s1 \<noteq> []" and r: "r = dropWhile (\<lambda>c. \<not> isspace c) s1"
    by (auto simp: extract_string_def s1_def Let_def split: if_splits)
  from ne have "\<not> isspace (hd s1)"
    unfolding s1_def by (rule hd_dropWhile)
  with ne have "length r < length s1"
    unfolding r by (cases s1) (auto simp: less_Suc_eq_le length_dropWhile_le)
  also have "length s1 \<le> length s"
    unfolding s1_def by (rule length_dropWhile_le)
  finally show ?thesis .
qed

lemma extract_int_shorter:
  "extract_int s = Some (v, r) \<Longrightarrow> length r \<le> length s"
proof -
  assume a: "extract_int s = Some (v, r)"
  define s1 where "s1 = dropWhile isspace s"
  define s2 where "s2 = (case s1 of [] \<Rightarrow> []
                | c # cs \<Rightarrow> if c = CHR ''-'' \<or> c = CHR ''+'' then cs else s1)"
  from a have "r = dropWhile isdigit s2"
    unfolding s2_def s1_def extract_int_def Let_def by (simp split: if_splits)
  then have "length r \<le> length s2"
    by (simp add: length_dropWhile_le)
  also have "length s2 \<le> length s1"
    by (simp add: s2_def split: list.splits)
  also have "length s1 \<le> length s"
    unfolding s1_def by (rule length_dropWhile_le)
  finally show ?thesis .
qed

text \<open>
  The loop \<^verbatim>\<open>while (infile >> filename >> label) lines.push_back(...)\<close> on the
  characters of the stream: it ends at the first pair that fails to extract.
\<close>

function read_lines :: "string \<Rightarrow> (string \<times> int) list" where
  "read_lines s =
     (case extract_string s of
        None \<Rightarrow> []
      | Some (filename, s1) \<Rightarrow>
          (case extract_int s1 of
             None \<Rightarrow> []
           | Some (label, s2) \<Rightarrow> (filename, label) # read_lines s2))"
  by pat_completeness auto
termination
proof (relation "measure length")
  show "wf (measure length)" by simp
next
  fix s :: string and x2 x y x2a xa ya
  assume "extract_string s = Some x2" and "(x, y) = x2"
    and "extract_int y = Some x2a" and "(xa, ya) = x2a"
  then have "length y < length s" and "length ya \<le> length y"
    using extract_string_shorter [of s x y] extract_int_shorter [of y xa ya] by auto
  then show "(ya, s) \<in> measure length" by simp
qed

declare read_lines.simps [simp del]

subsection \<open>Shuffling\<close>

text \<open>
  Modelled from the spec: \<^verbatim>\<open>shuffle\<close> of \<^verbatim>\<open>caffe/util/rng.hpp\<close> is not among
  the sources. The specification says that a permutation is applied to the full
  sequence before any write. The model exchanges, from the last position down to
  the second, the element at that position with the one at a drawn position not
  above it; the draws come from the outside world.
\<close>

fun shuffle_down :: "(nat \<Rightarrow> nat) \<Rightarrow> nat \<Rightarrow> 'a list \<Rightarrow> 'a list" where
  "shuffle_down draw 0 xs = xs"
| "shuffle_down draw (Suc i) xs =
     shuffle_down draw i
       (let j = draw (Suc i) mod Suc (Suc i) in xs[Suc i := xs ! j, j := xs ! Suc i])"

definition shuffle :: "(nat \<Rightarrow> nat) \<Rightarrow> 'a list \<Rightarrow> 'a list" where
  "shuffle draw xs = shuffle_down draw (length xs - 1) xs"

subsection \<open>Keys and values\<close>

type_synonym size_t = "64 word"

definition string_size :: "string \<Rightarrow> size_t" where
  "string_size s = of_nat (length s)"

text \<open>
  \<^verbatim>\<open>std::string::substr(pos, n)\<close>: throws \<^verbatim>\<open>out_of_range\<close> when
  \<^verbatim>\<open>pos > size()\<close> (the value \<open>None\<close>), and otherwise returns the characters
  from \<open>pos\<close> on, \<open>n\<close> of them or as many as the string has, whichever is
  less. The positions and lengths are \<^verbatim>\<open>size_t\<close> values.
\<close>

definition substr :: "string \<Rightarrow> size_t \<Rightarrow> size_t \<Rightarrow> string option" where
  "substr s pos n =
     (if string_size s < pos then None
      else Some (take (unat (min n (string_size s - pos))) (drop (unat pos) s)))"

text \<open>\<^verbatim>\<open>file_name.substr(0, file_name.size() - 4)\<close>, the subtraction in \<^verbatim>\<open>size_t\<close>.\<close>

definition file_name_base :: "string \<Rightarrow> string option" where
  "file_name_base file_name = substr file_name 0 (string_size file_name - 4)"

text \<open>What \<^verbatim>\<open>%s\<close> prints of \<^verbatim>\<open>c_str()\<close>: the characters before the first NUL.\<close>

definition c_str :: "string \<Rightarrow> string" where
  "c_str s = takeWhile (\<lambda>c. c \<noteq> CHR 0x00) s"

text \<open>
  \<^verbatim>\<open>%0wd\<close>: the sign if negative, then zeros up to the width \<open>w\<close>, then the digits.
\<close>

definition format_d :: "nat \<Rightarrow> int \<Rightarrow> string" where
  "format_d w v =
     (let ds = digits_of \<bar>v\<bar>;
          sign = (if v < 0 then ''-'' else [])
      in sign @ replicate (w - length sign - length ds) (CHR ''0'') @ ds)"

text \<open>\<^verbatim>\<open>snprintf(buf, n, ...)\<close> keeps the first \<open>n - 1\<close> characters of the output.\<close>

definition snprintf :: "nat \<Rightarrow> string \<Rightarrow> string" where
  "snprintf n out = take (n - 1) out"

definition kMaxKeyLength :: nat where
  "kMaxKeyLength = 256"

definition kMaxValLength :: nat where
  "kMaxValLength = 256"

definition keystr :: "nat \<Rightarrow> string \<Rightarrow> string" where
  "keystr line_id base =
     snprintf kMaxKeyLength (format_d 8 (int line_id) @ ''_'' @ c_str base)"

definition valstr :: "int \<Rightarrow> string" where
  "valstr label = snprintf kMaxValLength (format_d 4 label)"

subsection \<open>The outside world and the database calls\<close>

text \<open>
  Every call into leveldb, lmdb or the file system is recorded, in order, as an
  event. The trace of events is what a run has done to the database.
\<close>

datatype event =
    LevelDB_Open string
  | Batch_New
  | Batch_Put string string
  | DB_Write
  | Batch_Delete
  | DB_Delete
  | Mkdir string
  | Mdb_Env_Create
  | Mdb_Env_Set_Mapsize
  | Mdb_Env_Open string
  | Mdb_Txn_Begin
  | Mdb_Open
  | Mdb_Put string string
  | Mdb_Txn_Commit
  | Mdb_Close
  | Mdb_Env_Close

text \<open>
  What is at the destination path before the run: nothing, a directory that holds a
  leveldb database, or some other entry (an empty directory, a file, an lmdb
  directory).
\<close>

datatype dest = Absent | LevelDB_Dir | Other_Entry

text \<open>
  The world outside the program: the content of each file that can be opened for
  reading, the state of each path as a destination, whether the library call made
  when \<open>k\<close> calls have been issued fails for a reason of its own (disk full, map
  full, permissions), and the random draws.
\<close>

record world =
  file_content :: "string \<Rightarrow> string option"
  dest_state :: "string \<Rightarrow> dest"
  faulty :: "nat \<Rightarrow> bool"
  draw :: "nat \<Rightarrow> nat"

text \<open>
  How the process ends: \<^verbatim>\<open>return\<close> from \<^verbatim>\<open>main\<close>, a failed \<^verbatim>\<open>CHECK\<close> or
  \<^verbatim>\<open>LOG(FATAL)\<close> (which aborts), an uncaught exception, or signed overflow of a
  counter (undefined behaviour).
\<close>

datatype ending = Return int | Fatal string | Uncaught | Undefined

type_synonym 'a result = "(ending \<times> event list) + 'a"

definition then_do :: "'a result \<Rightarrow> ('a \<Rightarrow> 'b result) \<Rightarrow> 'b result" where
  "then_do r k = (case r of Inl e \<Rightarrow> Inl e | Inr x \<Rightarrow> k x)"

text \<open>A library call: it is recorded, and succeeds unless the world makes it fail.\<close>

definition lib_call :: "world \<Rightarrow> event \<Rightarrow> event list \<Rightarrow> bool \<times> event list" where
  "lib_call w e tr = (\<not> faulty w (length tr), tr @ [e])"

text \<open>
  \<^verbatim>\<open>mkdir(2)\<close> returns 0 only if it has created the directory: it fails with
  \<^verbatim>\<open>EEXIST\<close> when the path names an entry of any kind.
\<close>

definition mkdir :: "world \<Rightarrow> string \<Rightarrow> event list \<Rightarrow> bool \<times> event list" where
  "mkdir w path tr =
     (dest_state w path = Absent \<and> \<not> faulty w (length tr), tr @ [Mkdir path])"

text \<open>
  \<^verbatim>\<open>leveldb::DB::Open\<close> with \<^verbatim>\<open>error_if_exists\<close> and \<^verbatim>\<open>create_if_missing\<close> set,
  as \<^verbatim>\<open>main\<close> sets them: an error if the database already exists.
\<close>

definition leveldb_open :: "world \<Rightarrow> string \<Rightarrow> event list \<Rightarrow> bool \<times> event list" where
  "leveldb_open w path tr =
     (dest_state w path \<noteq> LevelDB_Dir \<and> \<not> faulty w (length tr), tr @ [LevelDB_Open path])"

text \<open>\<^verbatim>\<open>CHECK(ok) << msg\<close>: go on if the call succeeded, abort otherwise.\<close>

definition CHECK :: "string \<Rightarrow> bool \<times> event list \<Rightarrow> event list result" where
  "CHECK msg r = (if fst r then Inr (snd r) else Inl (Fatal msg, snd r))"

subsection \<open>The program\<close>

text \<open>
  The command line after flag parsing: the five flags and what is left of
  \<^verbatim>\<open>argv\<close> (the program name and the positional arguments).
\<close>

record cmdline =
  FLAGS_gray :: bool
  FLAGS_shuffle :: bool
  FLAGS_backend :: string
  FLAGS_resize_width :: "32 word"
  FLAGS_resize_height :: "32 word"
  argv :: "string list"

text \<open>Lines 99 to 120: open the database.\<close>

definition open_db :: "world \<Rightarrow> string \<Rightarrow> string \<Rightarrow> event list \<Rightarrow> event list result" where
  "open_db w db_backend db_path tr =
     (if db_backend = ''leveldb'' then
        then_do (CHECK ''Failed to open leveldb'' (leveldb_open w db_path tr)) (\<lambda>tr.
        Inr (tr @ [Batch_New]))
      else if db_backend = ''lmdb'' then
        then_do (CHECK ''mkdir failed'' (mkdir w db_path tr)) (\<lambda>tr.
        then_do (CHECK ''mdb_env_create failed'' (lib_call w Mdb_Env_Create tr)) (\<lambda>tr.
        then_do (CHECK ''mdb_env_set_mapsize failed'' (lib_call w Mdb_Env_Set_Mapsize tr)) (\<lambda>tr.
        then_do (CHECK ''mdb_env_open failed'' (lib_call w (Mdb_Env_Open db_path) tr)) (\<lambda>tr.
        then_do (CHECK ''mdb_txn_begin failed'' (lib_call w Mdb_Txn_Begin tr)) (\<lambda>tr.
        CHECK ''mdb_open failed'' (lib_call w Mdb_Open tr))))))
      else Inl (Fatal ''Unknown db backend'', tr))"

text \<open>Lines 141 to 152: put one record.\<close>

definition put_db ::
  "world \<Rightarrow> string \<Rightarrow> string \<Rightarrow> string \<Rightarrow> event list \<Rightarrow> event list result" where
  "put_db w db_backend k v tr =
     (if db_backend = ''leveldb'' then Inr (tr @ [Batch_Put k v])
      else if db_backend = ''lmdb'' then
        CHECK ''mdb_put failed'' (lib_call w (Mdb_Put k v) tr)
      else Inl (Fatal ''Unknown db backend'', tr))"

text \<open>
  Lines 156 to 167: commit the batch or transaction and start the next one. The
  status of \<^verbatim>\<open>db->Write\<close> is not looked at.
\<close>

definition commit_txn :: "world \<Rightarrow> string \<Rightarrow> event list \<Rightarrow> event list result" where
  "commit_txn w db_backend tr =
     (if db_backend = ''leveldb'' then Inr (tr @ [DB_Write, Batch_Delete, Batch_New])
      else if db_backend = ''lmdb'' then
        then_do (CHECK ''mdb_txn_commit failed'' (lib_call w Mdb_Txn_Commit tr)) (\<lambda>tr.
        CHECK ''mdb_txn_begin failed'' (lib_call w Mdb_Txn_Begin tr))
      else Inl (Fatal ''Unknown db backend'', tr))"

text \<open>
  Lines 128 to 170: the loop over \<^verbatim>\<open>lines\<close>, here over the entries that are
  left, with the two \<^verbatim>\<open>int\<close> counters \<^verbatim>\<open>line_id\<close> and \<^verbatim>\<open>count\<close>
  (here \<open>cnt\<close>). Incrementing a counter that holds \<^verbatim>\<open>INT_MAX\<close> is
  undefined.
\<close>

fun store ::
  "world \<Rightarrow> string \<Rightarrow> nat \<Rightarrow> nat \<Rightarrow> (string \<times> int) list \<Rightarrow> event list
     \<Rightarrow> (nat \<times> event list) result" where
  "store w db_backend line_id cnt [] tr = Inr (cnt, tr)"
| "store w db_backend line_id cnt ((file_name, label) # rest) tr =
     (case file_name_base file_name of
        None \<Rightarrow> Inl (Uncaught, tr)
      | Some base \<Rightarrow>
          (case put_db w db_backend (keystr line_id base) (valstr label) tr of
             Inl e \<Rightarrow> Inl e
           | Inr tr1 \<Rightarrow>
               if int cnt = INT_MAX then Inl (Undefined, tr1)
               else
                 (case (if Suc cnt mod 1000 = 0 then commit_txn w db_backend tr1
                        else Inr tr1) of
                    Inl e \<Rightarrow> Inl e
                  | Inr tr2 \<Rightarrow>
                      if int line_id = INT_MAX then Inl (Undefined, tr2)
                      else store w db_backend (Suc line_id) (Suc cnt) rest tr2)))"

text \<open>Lines 173 to 184: write the last batch.\<close>

definition write_last_batch :: "world \<Rightarrow> string \<Rightarrow> event list \<Rightarrow> event list result" where
  "write_last_batch w db_backend tr =
     (if db_backend = ''leveldb'' then Inr (tr @ [DB_Write, Batch_Delete])
      else if db_backend = ''lmdb'' then
        CHECK ''mdb_txn_commit failed'' (lib_call w Mdb_Txn_Commit tr)
      else Inl (Fatal ''Unknown db backend'', tr))"

text \<open>Lines 187 to 194: close the database.\<close>

definition close_db :: "string \<Rightarrow> event list \<Rightarrow> event list result" where
  "close_db db_backend tr =
     (if db_backend = ''leveldb'' then Inr (tr @ [DB_Delete])
      else if db_backend = ''lmdb'' then Inr (tr @ [Mdb_Close, Mdb_Env_Close])
      else Inl (Fatal ''Unknown db backend'', tr))"

text \<open>
  Lines 65 to 73: the entries read from the list file \<^verbatim>\<open>argv[1]\<close>. A list
  file that cannot be opened reads as no entry at all.
\<close>

definition manifest_of :: "cmdline \<Rightarrow> world \<Rightarrow> (string \<times> int) list" where
  "manifest_of c w =
     (case file_content w (argv c ! 1) of
        None \<Rightarrow> []
      | Some s \<Rightarrow> read_lines s)"

text \<open>Lines 74 to 78: the entries \<^verbatim>\<open>main\<close> works on, shuffled as a whole if asked.\<close>

definition lines_of :: "cmdline \<Rightarrow> world \<Rightarrow> (string \<times> int) list" where
  "lines_of c w =
     (if FLAGS_shuffle c then shuffle (draw w) (manifest_of c w) else manifest_of c w)"

text \<open>\<^verbatim>\<open>main\<close>: the way the process ends and the calls it has issued.\<close>

definition main :: "cmdline \<Rightarrow> world \<Rightarrow> ending \<times> event list" where
  "main c w =
     (if length (argv c) \<noteq> 3 then (Return 1, [])
      else
        let lines = lines_of c w;
            db_backend = FLAGS_backend c;
            db_path = argv c ! 2
        in case open_db w db_backend db_path [] of
             Inl e \<Rightarrow> e
           | Inr tr0 \<Rightarrow>
               (case store w db_backend 0 0 lines tr0 of
                  Inl e \<Rightarrow> e
                | Inr (cnt, tr1) \<Rightarrow>
                    (case (if cnt mod 1000 \<noteq> 0 then write_last_batch w db_backend tr1
                           else Inr tr1) of
                       Inl e \<Rightarrow> e
                     | Inr tr2 \<Rightarrow>
                         (case close_db db_backend tr2 of
                            Inl e \<Rightarrow> e
                          | Inr tr3 \<Rightarrow> (Return 0, tr3)))))"

subsection \<open>Reading a trace\<close>

text \<open>The records staged, the commits and the closing calls of a trace.\<close>

fun put_of :: "event \<Rightarrow> (string \<times> string) option" where
  "put_of (Batch_Put k v) = Some (k, v)"
| "put_of (Mdb_Put k v) = Some (k, v)"
| "put_of _ = None"

definition puts :: "event list \<Rightarrow> (string \<times> string) list" where
  "puts tr = List.map_filter put_of tr"

definition is_commit :: "event \<Rightarrow> bool" where
  "is_commit e = (e = DB_Write \<or> e = Mdb_Txn_Commit)"

definition commits :: "event list \<Rightarrow> nat" where
  "commits tr = length (filter is_commit tr)"

definition is_close :: "event \<Rightarrow> bool" where
  "is_close e = (e = DB_Delete \<or> e = Mdb_Close \<or> e = Mdb_Env_Close)"

text \<open>
  The sizes of the committed batches, in order, and the number of records staged
  since the last commit: a put adds one to the open batch, a commit closes it.
\<close>

definition scan :: "nat list \<times> nat \<Rightarrow> event \<Rightarrow> nat list \<times> nat" where
  "scan st e =
     (if is_commit e then (fst st @ [snd st], 0)
      else if put_of e \<noteq> None then (fst st, Suc (snd st))
      else st)"

definition batches :: "event list \<Rightarrow> nat list \<times> nat" where
  "batches tr = foldl scan ([], 0) tr"

text \<open>The record the loop builds for the entry at position \<open>line_id\<close>.\<close>

definition record_of :: "nat \<Rightarrow> string \<times> int \<Rightarrow> (string \<times> string) option" where
  "record_of line_id e =
     map_option (\<lambda>base. (keystr line_id base, valstr (snd e))) (file_name_base (fst e))"

definition records :: "(string \<times> int) list \<Rightarrow> (string \<times> string) option list" where
  "records ls = map (\<lambda>(line_id, e). record_of line_id e) (List.enumerate 0 ls)"

subsection \<open>Example runs\<close>

text \<open>
  A world where the list file \<^verbatim>\<open>list.txt\<close> holds the two lines
  \<^verbatim>\<open>cat/a.jpg 3\<close> and \<^verbatim>\<open>dog/b.jpg 5\<close>, nothing is at any destination and no
  library call fails; and the command line \<^verbatim>\<open>prog list.txt out_db\<close> with the
  default flags.
\<close>

definition two_lines :: string where
  "two_lines = ''cat/a.jpg 3\<newline>dog/b.jpg 5\<newline>''"

definition quiet_world :: world where
  "quiet_world =
     \<lparr>file_content = (\<lambda>p. if p = ''list.txt'' then Some two_lines else None),
      dest_state = (\<lambda>p. Absent),
      faulty = (\<lambda>k. False),
      draw = (\<lambda>i. 0)\<rparr>"

definition default_cmd :: cmdline where
  "default_cmd =
     \<lparr>FLAGS_gray = False, FLAGS_shuffle = False, FLAGS_backend = ''lmdb'',
      FLAGS_resize_width = 0, FLAGS_resize_height = 0,
      argv = [''prog'', ''list.txt'', ''out_db'']\<rparr>"

text \<open>The closing calls of a backend: lines 188, 190 and 191.\<close>

definition close_calls :: "string \<Rightarrow> event list" where
  "close_calls db_backend =
     (if db_backend = ''leveldb'' then [DB_Delete] else [Mdb_Close, Mdb_Env_Close])"

text \<open>The same world, but the seventh library call (the first put of lmdb) fails.\<close>

definition put_fails_world :: world where
  "put_fails_world = quiet_world\<lparr>faulty := (\<lambda>k. k = 6)\<rparr>"

text \<open>
  The same world after an earlier run: the destination \<^verbatim>\<open>out_db\<close> is there,
  as an lmdb directory or as a leveldb directory.
\<close>

definition rerun_world :: world where
  "rerun_world =
     quiet_world\<lparr>dest_state := (\<lambda>p. if p = ''out_db'' then Other_Entry else Absent)\<rparr>"

definition rerun_leveldb_world :: world where
  "rerun_leveldb_world =
     quiet_world\<lparr>dest_state := (\<lambda>p. if p = ''out_db'' then LevelDB_Dir else Absent)\<rparr>"

text \<open>A world whose list file holds the one line \<^verbatim>\<open>ab 7\<close>.\<close>

definition short_world :: world where
  "short_world = quiet_world\<lparr>file_content := (\<lambda>p. Some ''ab 7'')\<rparr>"

text \<open>
  The sequence number embedded in a key: the number its leading digits spell.
\<close>

definition key_seq :: "string \<Rightarrow> nat" where
  "key_seq key = nat (decimal_value (takeWhile isdigit key))"

subsection \<open>The list file as a stream of tokens\<close>

text \<open>
  Following the words of the specification: the list file as a stream of
  white-space-delimited tokens, read in pairs of a path token and a label token
  that is an integer, up to the first pair that does not parse.
\<close>

fun split_ws :: "string \<Rightarrow> string \<Rightarrow> string list" where
  "split_ws cur [] = (if cur = [] then [] else [cur])"
| "split_ws cur (c # cs) =
     (if isspace c then (if cur = [] then split_ws [] cs else cur # split_ws [] cs)
      else split_ws (cur @ [c]) cs)"

definition spec_tokens :: "string \<Rightarrow> string list" where
  "spec_tokens s = split_ws [] s"

text \<open>
  A token that is an integer: a sign or none, then digits only and at least one,
  with a value that fits an \<^verbatim>\<open>int\<close>.
\<close>

definition spec_int_token :: "string \<Rightarrow> int option" where
  "spec_int_token t =
     (let neg = (case t of [] \<Rightarrow> False | c # _ \<Rightarrow> c = CHR ''-'');
          ds = (case t of [] \<Rightarrow> []
                | c # cs \<Rightarrow> if c = CHR ''-'' \<or> c = CHR ''+'' then cs else t);
          v = (if neg then - decimal_value ds else decimal_value ds)
      in if ds \<noteq> [] \<and> list_all isdigit ds \<and> INT_MIN \<le> v \<and> v \<le> INT_MAX then Some v
         else None)"

fun spec_pairs :: "string list \<Rightarrow> (string \<times> int) list" where
  "spec_pairs (p # l # ts) =
     (case spec_int_token l of None \<Rightarrow> [] | Some v \<Rightarrow> (p, v) # spec_pairs ts)"
| "spec_pairs _ = []"

definition spec_load :: "string \<Rightarrow> (string \<times> int) list" where
  "spec_load s = spec_pairs (spec_tokens s)"

text \<open>
  The tokens in label position, and the label tokens on which reading an integer
  from the characters either fails or uses up the whole token.
\<close>

fun label_tokens :: "string list \<Rightarrow> string list" where
  "label_tokens (p # l # ts) = l # label_tokens ts"
| "label_tokens _ = []"

definition clean_label :: "string \<Rightarrow> bool" where
  "clean_label t = (case extract_int t of None \<Rightarrow> True | Some (v, r) \<Rightarrow> r = [])"

text \<open>
  Two list files: one where a label runs into the next path, one with a label that
  is no number in its second line.
\<close>

definition glued_lines :: string where
  "glued_lines = ''a.jpg 3b.jpg 5\<newline>''"

definition broken_lines :: string where
  "broken_lines = ''cat/a.jpg 3\<newline>dog/b.jpg x\<newline>emu/c.jpg 7\<newline>''"

text \<open>
  A list file of \<open>n\<close> lines \<^verbatim>\<open>a.jpg 1\<close>, and the quiet world with that list
  file.
\<close>

definition many_lines :: "nat \<Rightarrow> string" where
  "many_lines n = concat (replicate n ''a.jpg 1\<newline>'')"

definition many_world :: "nat \<Rightarrow> world" where
  "many_world n = quiet_world\<lparr>file_content := (\<lambda>p. Some (many_lines n))\<rparr>"

section \<open>Properties\<close>

subsection \<open>The steps of a run\<close>

text \<open>
  What each step adds to the trace when it succeeds, that a step which fails ends
  in a fatal log and has added no closing call, and how \<^verbatim>\<open>main\<close> chains the
  steps.
\<close>

lemma puts_append: "puts (tr @ tr') = puts tr @ puts tr'"
  by (simp add: puts_def List.map_filter_def)

lemma puts_Nil: "puts [] = []"
  by (simp add: puts_def List.map_filter_def)

lemma puts_Cons: "puts (e # tr) = (case put_of e of None \<Rightarrow> puts tr | Some r \<Rightarrow> r # puts tr)"
  by (simp add: puts_def List.map_filter_def split: option.splits)

lemma CHECK_Inl:
  "CHECK msg r = Inl (e, tr') \<Longrightarrow> e = Fatal msg \<and> tr' = snd r"
  by (auto simp: CHECK_def split: if_splits)

lemma CHECK_Inr:
  "CHECK msg r = Inr tr' \<Longrightarrow> fst r \<and> tr' = snd r"
  by (auto simp: CHECK_def split: if_splits)

lemma open_db_Inr:
  "open_db w b p tr = Inr tr1 \<Longrightarrow>
     tr1 = tr @ [LevelDB_Open p, Batch_New] \<or>
     tr1 = tr @ [Mkdir p, Mdb_Env_Create, Mdb_Env_Set_Mapsize, Mdb_Env_Open p, Mdb_Txn_Begin, Mdb_Open]"
  by (auto simp: open_db_def CHECK_def lib_call_def mkdir_def leveldb_open_def then_do_def split: if_splits)

lemma open_db_Inl:
  "open_db w b p tr = Inl (e, tr') \<Longrightarrow>
     (\<exists>msg. e = Fatal msg) \<and> filter is_close tr' = filter is_close tr"
  by (auto simp: open_db_def lib_call_def mkdir_def leveldb_open_def is_close_def then_do_def
      dest!: CHECK_Inl CHECK_Inr split: if_splits sum.splits)

lemma open_db_Inl_puts:
  "open_db w b p tr = Inl (e, tr') \<Longrightarrow> puts tr' = puts tr"
  by (auto simp: open_db_def lib_call_def mkdir_def leveldb_open_def then_do_def
      puts_append puts_Cons puts_Nil
      dest!: CHECK_Inl CHECK_Inr split: if_splits sum.splits)

lemma open_db_unknown:
  "b \<noteq> ''leveldb'' \<Longrightarrow> b \<noteq> ''lmdb''
     \<Longrightarrow> open_db w b p tr = Inl (Fatal ''Unknown db backend'', tr)"
  unfolding open_db_def by (simp only: if_False)

lemma put_db_Inr:
  "put_db w b k v tr = Inr tr1 \<Longrightarrow> tr1 = tr @ [Batch_Put k v] \<or> tr1 = tr @ [Mdb_Put k v]"
  by (auto simp: put_db_def CHECK_def lib_call_def split: if_splits)

lemma put_db_Inl:
  "put_db w b k v tr = Inl (e, tr') \<Longrightarrow>
     (\<exists>msg. e = Fatal msg) \<and> filter is_close tr' = filter is_close tr"
  by (auto simp: put_db_def lib_call_def is_close_def dest!: CHECK_Inl split: if_splits)

lemma put_db_Inl_trace:
  "put_db w b k v tr = Inl (e, tr') \<Longrightarrow> tr' = tr \<or> tr' = tr @ [Mdb_Put k v]"
  by (auto simp: put_db_def lib_call_def dest!: CHECK_Inl split: if_splits)

lemma commit_txn_Inr:
  "commit_txn w b tr = Inr tr1 \<Longrightarrow>
     tr1 = tr @ [DB_Write, Batch_Delete, Batch_New] \<or> tr1 = tr @ [Mdb_Txn_Commit, Mdb_Txn_Begin]"
  by (auto simp: commit_txn_def CHECK_def lib_call_def then_do_def split: if_splits)

lemma commit_txn_Inl:
  "commit_txn w b tr = Inl (e, tr') \<Longrightarrow>
     (\<exists>msg. e = Fatal msg) \<and> filter is_close tr' = filter is_close tr"
  by (auto simp: commit_txn_def lib_call_def is_close_def then_do_def
      dest!: CHECK_Inl CHECK_Inr split: if_splits sum.splits)

lemma commit_txn_Inl_puts:
  "commit_txn w b tr = Inl (e, tr') \<Longrightarrow> puts tr' = puts tr"
  by (auto simp: commit_txn_def lib_call_def then_do_def puts_append puts_Cons puts_Nil
      dest!: CHECK_Inl CHECK_Inr split: if_splits sum.splits)

lemma write_last_batch_Inr:
  "write_last_batch w b tr = Inr tr1 \<Longrightarrow>
     tr1 = tr @ [DB_Write, Batch_Delete] \<or> tr1 = tr @ [Mdb_Txn_Commit]"
  by (auto simp: write_last_batch_def CHECK_def lib_call_def split: if_splits)

lemma write_last_batch_Inl:
  "write_last_batch w b tr = Inl (e, tr') \<Longrightarrow>
     (\<exists>msg. e = Fatal msg) \<and> filter is_close tr' = filter is_close tr"
  by (auto simp: write_last_batch_def lib_call_def is_close_def dest!: CHECK_Inl split: if_splits)

lemma write_last_batch_Inl_puts:
  "write_last_batch w b tr = Inl (e, tr') \<Longrightarrow> puts tr' = puts tr"
  by (auto simp: write_last_batch_def lib_call_def puts_append puts_Cons puts_Nil
      dest!: CHECK_Inl split: if_splits)

lemma close_db_Inr:
  "close_db b tr = Inr tr1 \<Longrightarrow>
     tr1 = tr @ [DB_Delete] \<or> tr1 = tr @ [Mdb_Close, Mdb_Env_Close]"
  by (auto simp: close_db_def split: if_splits)

lemma close_db_Inl:
  "close_db b tr = Inl (e, tr') \<Longrightarrow>
     (\<exists>msg. e = Fatal msg) \<and> filter is_close tr' = filter is_close tr"
  by (auto simp: close_db_def split: if_splits)

lemma close_db_Inl_puts:
  "close_db b tr = Inl (e, tr') \<Longrightarrow> puts tr' = puts tr"
  by (auto simp: close_db_def split: if_splits)

lemma store_Inr_puts:
  "store w b line_id cnt ls tr = Inr (cnt', tr') \<Longrightarrow>
     map Some (puts tr') = map Some (puts tr) @ map (\<lambda>(i, e). record_of i e) (List.enumerate line_id ls)
     \<and> cnt' = cnt + length ls"
proof (induction ls arbitrary: line_id cnt tr)
  case Nil
  then show ?case by simp
next
  case (Cons a ls)
  obtain file_name label where a: "a = (file_name, label)" by (cases a)
  from Cons.prems obtain base tr1 tr2 where
    base: "file_name_base file_name = Some base"
    and put: "put_db w b (keystr line_id base) (valstr label) tr = Inr tr1"
    and com: "(if Suc cnt mod 1000 = 0 then commit_txn w b tr1 else Inr tr1) = Inr tr2"
    and rest: "store w b (Suc line_id) (Suc cnt) ls tr2 = Inr (cnt', tr')"
    unfolding a by (auto split: option.splits sum.splits if_splits)
  from put have p1: "puts tr1 = puts tr @ [(keystr line_id base, valstr label)]"
    using put_db_Inr [OF put] by (auto simp: puts_append puts_Cons puts_Nil)
  from com have p2: "puts tr2 = puts tr1"
    using commit_txn_Inr [of w b tr1 tr2] by (auto simp: puts_append puts_Cons puts_Nil split: if_splits)
  from Cons.IH [OF rest] p1 p2 base show ?case
    unfolding a by (simp add: record_of_def)
qed

lemma store_Inr_close:
  "store w b line_id cnt ls tr = Inr (cnt', tr') \<Longrightarrow> filter is_close tr' = filter is_close tr"
proof (induction ls arbitrary: line_id cnt tr)
  case Nil
  then show ?case by simp
next
  case (Cons a ls)
  obtain file_name label where a: "a = (file_name, label)" by (cases a)
  from Cons.prems obtain base tr1 tr2 where
    base: "file_name_base file_name = Some base"
    and put: "put_db w b (keystr line_id base) (valstr label) tr = Inr tr1"
    and com: "(if Suc cnt mod 1000 = 0 then commit_txn w b tr1 else Inr tr1) = Inr tr2"
    and rest: "store w b (Suc line_id) (Suc cnt) ls tr2 = Inr (cnt', tr')"
    unfolding a by (auto split: option.splits sum.splits if_splits)
  have c1: "filter is_close tr1 = filter is_close tr"
    using put_db_Inr [OF put] by (auto simp: is_close_def)
  have c2: "filter is_close tr2 = filter is_close tr1"
    using com commit_txn_Inr [of w b tr1 tr2] by (auto simp: is_close_def split: if_splits)
  from Cons.IH [OF rest] c1 c2 show ?case by simp
qed

lemma store_Inr_bound:
  "store w b line_id cnt ls tr = Inr r \<Longrightarrow> int line_id \<le> INT_MAX
     \<Longrightarrow> int (line_id + length ls) \<le> INT_MAX"
proof (induction ls arbitrary: line_id cnt tr)
  case Nil
  then show ?case by simp
next
  case (Cons a ls)
  obtain file_name label where a: "a = (file_name, label)" by (cases a)
  from Cons.prems(1) obtain tr2 where
    ne: "int line_id \<noteq> INT_MAX"
    and rest: "store w b (Suc line_id) (Suc cnt) ls tr2 = Inr r"
    unfolding a by (auto split: option.splits sum.splits if_splits)
  from ne Cons.prems(2) have "int (Suc line_id) \<le> INT_MAX" by simp
  from Cons.IH [OF rest this] show ?case by simp
qed

lemma store_Inl:
  "store w b line_id cnt ls tr = Inl (e, tr') \<Longrightarrow>
     (\<forall>n. e \<noteq> Return n) \<and> filter is_close tr' = filter is_close tr"
proof (induction ls arbitrary: line_id cnt tr)
  case Nil
  then show ?case by simp
next
  case (Cons a ls)
  obtain file_name label where a: "a = (file_name, label)" by (cases a)
  show ?case
  proof (cases "file_name_base file_name")
    case None
    with Cons.prems show ?thesis unfolding a by simp
  next
    case (Some base)
    show ?thesis
    proof (cases "put_db w b (keystr line_id base) (valstr label) tr")
      case (Inl x)
      with Cons.prems Some have "put_db w b (keystr line_id base) (valstr label) tr = Inl (e, tr')"
        unfolding a by simp
      from put_db_Inl [OF this] show ?thesis by auto
    next
      case (Inr tr1)
      have c1: "filter is_close tr1 = filter is_close tr"
        using put_db_Inr [OF Inr] by (auto simp: is_close_def)
      show ?thesis
      proof (cases "int cnt = INT_MAX")
        case True
        with Cons.prems Some Inr c1 show ?thesis unfolding a by simp
      next
        case False
        show ?thesis
        proof (cases "if Suc cnt mod 1000 = 0 then commit_txn w b tr1 else Inr tr1")
          case (Inl y)
          with Cons.prems Some Inr False
          have "commit_txn w b tr1 = Inl (e, tr')"
            unfolding a by (auto split: if_splits)
          from commit_txn_Inl [OF this] c1 show ?thesis by auto
        next
          case tr2: (Inr tr2)
          have c2: "filter is_close tr2 = filter is_close tr1"
            using tr2 commit_txn_Inr [of w b tr1 tr2] by (auto simp: is_close_def split: if_splits)
          show ?thesis
          proof (cases "int line_id = INT_MAX")
            case True
            with Cons.prems Some Inr False tr2 c1 c2 show ?thesis unfolding a by simp
          next
            case nov: False
            with Cons.prems Some Inr False tr2
            have "store w b (Suc line_id) (Suc cnt) ls tr2 = Inl (e, tr')"
              unfolding a by simp
            from Cons.IH [OF this] c1 c2 show ?thesis by simp
          qed
        qed
      qed
    qed
  qed
qed

lemma store_Inl_puts:
  "store w b line_id cnt ls tr = Inl (e, tr') \<Longrightarrow> int line_id \<le> INT_MAX \<Longrightarrow>
     \<exists>k\<le>length ls. int (line_id + k) \<le> INT_MAX + 1
       \<and> map Some (puts tr') =
           map Some (puts tr) @ take k (map (\<lambda>(i, e). record_of i e) (List.enumerate line_id ls))"
proof (induction ls arbitrary: line_id cnt tr)
  case Nil
  then show ?case by simp
next
  case (Cons a ls)
  obtain file_name label where a: "a = (file_name, label)" by (cases a)
  let ?recs = "map (\<lambda>(i, e). record_of i e) (List.enumerate line_id (a # ls))"
  have zero: "\<exists>k\<le>length (a # ls). int (line_id + k) \<le> INT_MAX + 1
       \<and> map Some (puts tr') = map Some (puts tr) @ take k ?recs"
    if "puts tr' = puts tr"
    using that Cons.prems(2) by (intro exI [of _ 0]) simp
  show ?case
  proof (cases "file_name_base file_name")
    case None
    with Cons.prems(1) have "tr' = tr" unfolding a by simp
    then show ?thesis by (intro zero) simp
  next
    case (Some base)
    let ?r = "(keystr line_id base, valstr label)"
    have r: "record_of line_id a = Some ?r"
      by (simp add: record_of_def a Some)
    have one: "\<exists>k\<le>length (a # ls). int (line_id + k) \<le> INT_MAX + 1
       \<and> map Some (puts tr') = map Some (puts tr) @ take k ?recs"
      if "puts tr' = puts tr @ [?r]"
      using that Cons.prems(2) r by (intro exI [of _ 1]) simp
    show ?thesis
    proof (cases "put_db w b (keystr line_id base) (valstr label) tr")
      case (Inl x)
      with Cons.prems(1) Some have "put_db w b (keystr line_id base) (valstr label) tr = Inl (e, tr')"
        unfolding a by simp
      from put_db_Inl_trace [OF this] show ?thesis
      proof
        assume "tr' = tr"
        then show ?thesis by (intro zero) simp
      next
        assume "tr' = tr @ [Mdb_Put (keystr line_id base) (valstr label)]"
        then show ?thesis by (intro one) (simp add: puts_append puts_Cons puts_Nil)
      qed
    next
      case (Inr tr1)
      have p1: "puts tr1 = puts tr @ [?r]"
        using put_db_Inr [OF Inr] by (auto simp: puts_append puts_Cons puts_Nil)
      show ?thesis
      proof (cases "int cnt = INT_MAX")
        case True
        with Cons.prems(1) Some Inr have "tr' = tr1" unfolding a by simp
        with p1 show ?thesis by (intro one) simp
      next
        case False
        show ?thesis
        proof (cases "if Suc cnt mod 1000 = 0 then commit_txn w b tr1 else Inr tr1")
          case (Inl y)
          with Cons.prems(1) Some Inr False
          have "commit_txn w b tr1 = Inl (e, tr')"
            unfolding a by (auto split: if_splits)
          from commit_txn_Inl_puts [OF this] p1 show ?thesis by (intro one) simp
        next
          case tr2: (Inr tr2)
          have p2: "puts tr2 = puts tr1"
            using tr2 commit_txn_Inr [of w b tr1 tr2]
            by (auto simp: puts_append puts_Cons puts_Nil split: if_splits)
          show ?thesis
          proof (cases "int line_id = INT_MAX")
            case True
            with Cons.prems(1) Some Inr False tr2 have "tr' = tr2" unfolding a by simp
            with p1 p2 show ?thesis by (intro one) simp
          next
            case nov: False
            with Cons.prems(1) Some Inr False tr2
            have rest: "store w b (Suc line_id) (Suc cnt) ls tr2 = Inl (e, tr')"
              unfolding a by simp
            from nov Cons.prems(2) have "int (Suc line_id) \<le> INT_MAX" by simp
            from Cons.IH [OF rest this] obtain k where k: "k \<le> length ls"
              and b: "int (Suc line_id + k) \<le> INT_MAX + 1"
              and p: "map Some (puts tr') = map Some (puts tr2)
                  @ take k (map (\<lambda>(i, e). record_of i e) (List.enumerate (Suc line_id) ls))"
              by blast
            from k b p p1 p2 r show ?thesis
              by (intro exI [of _ "Suc k"]) simp
          qed
        qed
      qed
    qed
  qed
qed

lemma main_cases:
  assumes len: "length (argv c) = 3"
  obtains (Open_Fails) e tr where "open_db w (FLAGS_backend c) (argv c ! 2) [] = Inl (e, tr)"
      "main c w = (e, tr)"
  | (Store_Fails) tr0 e tr where "open_db w (FLAGS_backend c) (argv c ! 2) [] = Inr tr0"
      "store w (FLAGS_backend c) 0 0 (lines_of c w) tr0 = Inl (e, tr)" "main c w = (e, tr)"
  | (Last_Fails) tr0 cnt tr1 e tr where "open_db w (FLAGS_backend c) (argv c ! 2) [] = Inr tr0"
      "store w (FLAGS_backend c) 0 0 (lines_of c w) tr0 = Inr (cnt, tr1)"
      "cnt mod 1000 \<noteq> 0" "write_last_batch w (FLAGS_backend c) tr1 = Inl (e, tr)"
      "main c w = (e, tr)"
  | (Close_Fails) tr0 cnt tr1 tr2 e tr where "open_db w (FLAGS_backend c) (argv c ! 2) [] = Inr tr0"
      "store w (FLAGS_backend c) 0 0 (lines_of c w) tr0 = Inr (cnt, tr1)"
      "(if cnt mod 1000 \<noteq> 0 then write_last_batch w (FLAGS_backend c) tr1 else Inr tr1) = Inr tr2"
      "close_db (FLAGS_backend c) tr2 = Inl (e, tr)"
      "main c w = (e, tr)"
  | (Completed) tr0 cnt tr1 tr2 tr3 where "open_db w (FLAGS_backend c) (argv c ! 2) [] = Inr tr0"
      "store w (FLAGS_backend c) 0 0 (lines_of c w) tr0 = Inr (cnt, tr1)"
      "(if cnt mod 1000 \<noteq> 0 then write_last_batch w (FLAGS_backend c) tr1 else Inr tr1) = Inr tr2"
      "close_db (FLAGS_backend c) tr2 = Inr tr3"
      "main c w = (Return 0, tr3)"
proof (cases "open_db w (FLAGS_backend c) (argv c ! 2) []")
  case (Inl x)
  then show ?thesis using len Open_Fails [of "fst x" "snd x"] by (simp add: main_def)
next
  case o: (Inr tr0)
  show ?thesis
  proof (cases "store w (FLAGS_backend c) 0 0 (lines_of c w) tr0")
    case (Inl x)
    then show ?thesis using len o Store_Fails [of tr0 "fst x" "snd x"] by (simp add: main_def)
  next
    case s: (Inr r)
    obtain cnt tr1 where r: "r = (cnt, tr1)" by (cases r)
    show ?thesis
    proof (cases "if cnt mod 1000 \<noteq> 0 then write_last_batch w (FLAGS_backend c) tr1 else Inr tr1")
      case (Inl x)
      then show ?thesis using len o s r Last_Fails [of tr0 cnt tr1 "fst x" "snd x"]
        by (simp add: main_def split: if_splits)
    next
      case l: (Inr tr2)
      show ?thesis
      proof (cases "close_db (FLAGS_backend c) tr2")
        case (Inl x)
        then show ?thesis using len o s r l Close_Fails [of tr0 cnt tr1 tr2 "fst x" "snd x"]
          by (simp add: main_def)
      next
        case (Inr tr3)
        then show ?thesis using len o s r l Completed [of tr0 cnt tr1 tr2 tr3]
          by (simp add: main_def)
      qed
    qed
  qed
qed

lemma main_completed:
  assumes "fst (main c w) = Return 0"
  obtains tr0 cnt tr1 tr2 tr3 where "open_db w (FLAGS_backend c) (argv c ! 2) [] = Inr tr0"
      "store w (FLAGS_backend c) 0 0 (lines_of c w) tr0 = Inr (cnt, tr1)"
      "(if cnt mod 1000 \<noteq> 0 then write_last_batch w (FLAGS_backend c) tr1 else Inr tr1) = Inr tr2"
      "close_db (FLAGS_backend c) tr2 = Inr tr3"
      "main c w = (Return 0, tr3)"
proof -
  have len: "length (argv c) = 3"
  proof (rule ccontr)
    assume "length (argv c) \<noteq> 3"
    then have "main c w = (Return 1, [])"
      unfolding main_def by (rule if_P)
    with assms show False by simp
  qed
  from len show ?thesis
  proof (cases rule: main_cases [where w = w])
    case (Open_Fails e tr)
    with assms open_db_Inl [OF Open_Fails(1)] show ?thesis by auto
  next
    case (Store_Fails tr0 e tr)
    with assms store_Inl [OF Store_Fails(2)] show ?thesis by auto
  next
    case (Last_Fails tr0 cnt tr1 e tr)
    with assms write_last_batch_Inl [OF Last_Fails(4)] show ?thesis by auto
  next
    case (Close_Fails tr0 cnt tr1 tr2 e tr)
    with assms close_db_Inl [OF Close_Fails(4)] show ?thesis by auto
  next
    case (Completed tr0 cnt tr1 tr2 tr3)
    then show ?thesis using that by blast
  qed
qed

lemma completed_count:
  assumes "fst (main c w) = Return 0"
  shows "int (length (lines_of c w)) \<le> INT_MAX"
proof -
  from assms obtain tr0 cnt tr1 where
    "store w (FLAGS_backend c) 0 0 (lines_of c w) tr0 = Inr (cnt, tr1)"
    by (rule main_completed)
  from store_Inr_bound [OF this] show ?thesis by (simp add: INT_MAX_def)
qed

lemma puts_of_completed:
  assumes "fst (main c w) = Return 0"
  shows "map Some (puts (snd (main c w))) = records (lines_of c w)"
proof -
  from assms obtain tr0 cnt tr1 tr2 tr3 where
    o: "open_db w (FLAGS_backend c) (argv c ! 2) [] = Inr tr0"
    and s: "store w (FLAGS_backend c) 0 0 (lines_of c w) tr0 = Inr (cnt, tr1)"
    and l: "(if cnt mod 1000 \<noteq> 0 then write_last_batch w (FLAGS_backend c) tr1 else Inr tr1) = Inr tr2"
    and cl: "close_db (FLAGS_backend c) tr2 = Inr tr3"
    and m: "main c w = (Return 0, tr3)"
    by (rule main_completed)
  have p0: "puts tr0 = []"
    using open_db_Inr [OF o] by (auto simp: puts_Cons puts_Nil)
  have p1: "map Some (puts tr1) = records (lines_of c w)"
    using store_Inr_puts [OF s] p0 by (simp add: records_def)
  have p2: "puts tr2 = puts tr1"
    using l write_last_batch_Inr [of w "FLAGS_backend c" tr1 tr2]
    by (auto simp: puts_append puts_Cons puts_Nil split: if_splits)
  have p3: "puts tr3 = puts tr2"
    using close_db_Inr [OF cl] by (auto simp: puts_append puts_Cons puts_Nil)
  from p1 p2 p3 m show ?thesis by simp
qed

lemma puts_of_any_run:
  "length (puts (snd (main c w))) \<le> length (lines_of c w)
   \<and> int (length (puts (snd (main c w)))) \<le> INT_MAX + 1
   \<and> map Some (puts (snd (main c w)))
       = take (length (puts (snd (main c w)))) (records (lines_of c w))"
proof -
  have *: "length ps \<le> length ls \<and> int (length ps) \<le> INT_MAX + 1
      \<and> map Some ps = take (length ps) (records ls)"
    if "k \<le> length ls" and "int k \<le> INT_MAX + 1" and "map Some ps = take k (records ls)"
    for ps :: "(string \<times> string) list" and ls k
  proof -
    from that(1,3) have "length ps = k"
      using length_map [of Some ps] by (simp add: records_def)
    with that show ?thesis by simp
  qed
  have im: "(0::int) \<le> INT_MAX + 1" by (simp add: INT_MAX_def)
  show ?thesis
  proof (cases "length (argv c) = 3")
    case False
    then have "main c w = (Return 1, [])" by (simp add: main_def)
    then show ?thesis using im by (simp add: puts_Nil)
  next
    case True
    have o: "puts tr0 = []" if "open_db w (FLAGS_backend c) (argv c ! 2) [] = Inr tr0" for tr0
      using open_db_Inr [OF that] by (auto simp: puts_Cons puts_Nil)
    from True show ?thesis
    proof (cases rule: main_cases [where w = w])
      case (Open_Fails e tr)
      from open_db_Inl_puts [OF Open_Fails(1)] Open_Fails(2) im show ?thesis
        by (simp add: puts_Nil)
    next
      case (Store_Fails tr0 e tr)
      from store_Inl_puts [OF Store_Fails(2)] obtain k where
        "k \<le> length (lines_of c w)" "int k \<le> INT_MAX + 1"
        "map Some (puts tr) = take k (records (lines_of c w))"
        using o [OF Store_Fails(1)] by (auto simp: records_def INT_MAX_def)
      from * [OF this] Store_Fails(3) show ?thesis by simp
    next
      case (Last_Fails tr0 cnt tr1 e tr)
      have "map Some (puts tr) = take (length (lines_of c w)) (records (lines_of c w))"
        using store_Inr_puts [OF Last_Fails(2)] o [OF Last_Fails(1)]
          write_last_batch_Inl_puts [OF Last_Fails(4)]
        by (simp add: records_def)
      moreover have "int (length (lines_of c w)) \<le> INT_MAX + 1"
        using store_Inr_bound [OF Last_Fails(2)] by (simp add: INT_MAX_def)
      ultimately show ?thesis
        using * [of "length (lines_of c w)" "lines_of c w" "puts tr"] Last_Fails(5) by simp
    next
      case (Close_Fails tr0 cnt tr1 tr2 e tr)
      have "puts tr2 = puts tr1"
        using Close_Fails(3) write_last_batch_Inr [of w "FLAGS_backend c" tr1 tr2]
        by (auto simp: puts_append puts_Cons puts_Nil split: if_splits)
      then have "map Some (puts tr) = take (length (lines_of c w)) (records (lines_of c w))"
        using store_Inr_puts [OF Close_Fails(2)] o [OF Close_Fails(1)]
          close_db_Inl_puts [OF Close_Fails(4)]
        by (simp add: records_def)
      moreover have "int (length (lines_of c w)) \<le> INT_MAX + 1"
        using store_Inr_bound [OF Close_Fails(2)] by (simp add: INT_MAX_def)
      ultimately show ?thesis
        using * [of "length (lines_of c w)" "lines_of c w" "puts tr"] Close_Fails(5) by simp
    next
      case (Completed tr0 cnt tr1 tr2 tr3)
      then have "fst (main c w) = Return 0" by simp
      from puts_of_completed [OF this] completed_count [OF this]
      have "map Some (puts (snd (main c w)))
          = take (length (lines_of c w)) (records (lines_of c w))"
        and "int (length (lines_of c w)) \<le> INT_MAX + 1"
        by (simp_all add: records_def)
      then show ?thesis
        using * [of "length (lines_of c w)" "lines_of c w" "puts (snd (main c w))"] by simp
    qed
  qed
qed

lemma map_Some_eq: "map Some xs = map Some ys \<Longrightarrow> xs = ys"
  by simp

subsection \<open>Shuffled lists\<close>

lemma length_shuffle_down: "length (shuffle_down d i xs) = length xs"
  by (induction i arbitrary: xs) (auto simp: Let_def)

lemma length_shuffle: "length (shuffle d xs) = length xs"
  by (simp add: shuffle_def length_shuffle_down)

lemma mset_shuffle_down:
  "i < length xs \<Longrightarrow> mset (shuffle_down d i xs) = mset xs"
proof (induction i arbitrary: xs)
  case 0
  then show ?case by simp
next
  case (Suc i)
  let ?j = "d (Suc i) mod Suc (Suc i)"
  let ?ys = "xs[Suc i := xs ! ?j, ?j := xs ! Suc i]"
  have "?j < Suc (Suc i)" by (rule mod_less_divisor) simp
  then have "?j \<le> Suc i" by (simp only: less_Suc_eq_le)
  from this Suc.prems have j: "?j < length xs" by (rule le_less_trans)
  have "mset (shuffle_down d i ?ys) = mset ?ys"
    using Suc.prems by (intro Suc.IH) simp
  also have "mset ?ys = mset xs"
    using j Suc.prems by (rule mset_swap)
  finally show ?case by (simp add: Let_def)
qed

lemma mset_shuffle: "mset (shuffle d xs) = mset xs"
  by (cases xs) (simp_all add: shuffle_def mset_shuffle_down)

subsection \<open>Decimal numbers in keys\<close>

lemma digit_char_ok:
  assumes "d < 10"
  shows "digit_val (digit_char d) = d" and "isdigit (digit_char d)"
proof -
  from assms have "d = 0 \<or> d = 1 \<or> d = 2 \<or> d = 3 \<or> d = 4 \<or> d = 5 \<or> d = 6 \<or> d = 7
      \<or> d = 8 \<or> d = 9" by arith
  then show "digit_val (digit_char d) = d" and "isdigit (digit_char d)"
    by (auto simp: digit_val_def digit_char_def isdigit_def)
qed

lemma underscore_no_digit: "\<not> isdigit (CHR ''_'')"
  by (simp add: isdigit_def)

lemma decimal_value_snoc:
  "decimal_value (ds @ [c]) = 10 * decimal_value ds + int (digit_val c)"
  by (simp add: decimal_value_def)

lemma decimal_value_digits_of: "0 \<le> n \<Longrightarrow> decimal_value (digits_of n) = n"
proof (induction n rule: digits_of.induct)
  case (1 n)
  show ?case
  proof (cases "n < 10")
    case True
    with "1.prems" have "nat n < 10" by simp
    with "1.prems" True show ?thesis
      by (simp add: digits_of.simps [of n] decimal_value_def digit_char_ok)
  next
    case False
    have "nat (n mod 10) < 10" by simp
    moreover from False have "0 \<le> n div 10" by simp
    ultimately show ?thesis
      using False "1.IH"
      by (simp add: digits_of.simps [of n] decimal_value_snoc digit_char_ok)
  qed
qed

lemma digits_of_isdigit: "c \<in> set (digits_of n) \<Longrightarrow> isdigit c"
proof (induction n rule: digits_of.induct)
  case (1 n)
  show ?case
  proof (cases "n < 10")
    case True
    then have "nat n < 10" by simp
    with True "1.prems" show ?thesis
      by (simp add: digits_of.simps [of n] digit_char_ok)
  next
    case False
    have "nat (n mod 10) < 10" by simp
    with False "1.IH" "1.prems" show ?thesis
      by (auto simp: digits_of.simps [of n] digit_char_ok)
  qed
qed

lemma length_digits_of: "0 < k \<Longrightarrow> n < 10 ^ k \<Longrightarrow> length (digits_of n) \<le> k"
proof (induction n arbitrary: k rule: digits_of.induct)
  case (1 n)
  show ?case
  proof (cases "n < 10")
    case True
    with "1.prems" show ?thesis
      by (simp add: digits_of.simps [of n] Suc_leI)
  next
    case False
    from "1.prems" obtain j where k: "k = Suc j"
      by (cases k) auto
    have j: "0 < j"
    proof (rule ccontr)
      assume "\<not> 0 < j"
      with k "1.prems" False show False by simp
    qed
    from "1.prems" k have "n < 10 ^ j * 10" by simp
    moreover have "n div 10 < m" if "n < m * 10" for m :: int
      using that by arith
    ultimately have "n div 10 < 10 ^ j"
      by blast
    with False j have "length (digits_of (n div 10)) \<le> j"
      by (intro "1.IH") auto
    with False k show ?thesis
      by (simp add: digits_of.simps [of n])
  qed
qed

lemma decimal_value_zeros:
  "decimal_value (replicate k (CHR ''0'') @ ds) = decimal_value ds"
proof -
  have "foldl (\<lambda>acc c. 10 * acc + int (digit_val c)) 0 (replicate k (CHR ''0'')) = 0"
    by (induction k) (simp_all add: digit_val_def)
  then show ?thesis by (simp add: decimal_value_def)
qed

lemma key_seq_keystr:
  assumes "n < 10 ^ 10"
  shows "key_seq (keystr n base) = n"
proof -
  define zs where "zs = replicate (8 - length (digits_of (int n))) (CHR ''0'')"
  define ds where "ds = zs @ digits_of (int n)"
  have f: "format_d 8 (int n) = ds"
    by (simp add: format_d_def ds_def zs_def Let_def)
  from assms have "int n < 10 ^ 10"
    using of_nat_less_iff [of n "10 ^ 10", where ?'a = int] by simp
  then have len: "length ds \<le> 10"
    using length_digits_of [of 10 "int n"] by (simp add: ds_def zs_def)
  have zero: "isdigit (CHR ''0'')"
    by (simp add: isdigit_def)
  have all: "\<forall>c \<in> set ds. isdigit c"
    using zero by (auto simp: ds_def zs_def dest: digits_of_isdigit)
  have "255 - length ds = Suc (254 - length ds)"
    using len by arith
  then have "keystr n base = ds @ CHR ''_'' # take (254 - length ds) (c_str base)"
    using len by (simp add: keystr_def snprintf_def kMaxKeyLength_def f)
  then have "takeWhile isdigit (keystr n base) = ds"
    using all by (simp add: takeWhile_tail underscore_no_digit)
  then show ?thesis
    by (simp add: key_seq_def ds_def zs_def decimal_value_zeros decimal_value_digits_of)
qed

lemma staged_key_seq:
  assumes "map Some ps = take (length ps) (records ls)" and "length ps \<le> length ls"
    and "int (length ps) \<le> INT_MAX + 1"
  shows "map (\<lambda>p. key_seq (fst p)) ps = [0..<length ps]"
proof (rule nth_equalityI)
  show "length (map (\<lambda>p. key_seq (fst p)) ps) = length [0..<length ps]" by simp
  fix i assume "i < length (map (\<lambda>p. key_seq (fst p)) ps)"
  then have i: "i < length ps" by simp
  with assms(2) have "records ls ! i = record_of i (ls ! i)"
    by (simp add: records_def nth_enumerate_eq)
  with assms(1) i have "Some (ps ! i) = record_of i (ls ! i)"
    using nth_map [of i ps Some] by simp
  then obtain base where "ps ! i = (keystr i base, valstr (snd (ls ! i)))"
    by (cases "file_name_base (fst (ls ! i))") (simp_all add: record_of_def)
  moreover from i assms(3) have "i < 10 ^ 10" by (simp add: INT_MAX_def)
  ultimately have "key_seq (fst (ps ! i)) = i"
    by (simp add: key_seq_keystr)
  with i show "map (\<lambda>p. key_seq (fst p)) ps ! i = [0..<length ps] ! i" by simp
qed

subsection \<open>An existing destination\<close>

text \<open>
  C1, as stated, fails: run with the lmdb backend on a destination that is already
  there, the program does not go on with the existing directory. \<^verbatim>\<open>mkdir\<close> does
  not return 0 and the check of line 107 aborts the run.
\<close>

theorem existing_lmdb_destination_counterexample:
  "main default_cmd rerun_world = (Fatal ''mkdir failed'', [Mkdir ''out_db''])"
  by code_simp

text \<open>
  C1, amended. Called with its two positional arguments on a destination that
  already exists, the program ends in a fatal log at the first call of the open
  step, for either backend, and stages nothing: with lmdb whatever the entry at
  the path is (\<^verbatim>\<open>mkdir failed\<close>), with leveldb when a leveldb database is there
  (\<^verbatim>\<open>Failed to open leveldb\<close>, since \<^verbatim>\<open>error_if_exists\<close> is set).
\<close>

theorem existing_destination_is_fatal:
  assumes "length (argv c) = 3"
  shows "(FLAGS_backend c = ''lmdb'' \<and> dest_state w (argv c ! 2) \<noteq> Absent
            \<longrightarrow> main c w = (Fatal ''mkdir failed'', [Mkdir (argv c ! 2)]))
       \<and> (FLAGS_backend c = ''leveldb'' \<and> dest_state w (argv c ! 2) = LevelDB_Dir
            \<longrightarrow> main c w = (Fatal ''Failed to open leveldb'', [LevelDB_Open (argv c ! 2)]))"
proof -
  have "open_db w ''lmdb'' p [] = Inl (Fatal ''mkdir failed'', [Mkdir p])"
    if "dest_state w p \<noteq> Absent" for p
    using that by (simp add: open_db_def mkdir_def CHECK_def then_do_def)
  moreover have "open_db w ''leveldb'' p [] = Inl (Fatal ''Failed to open leveldb'', [LevelDB_Open p])"
    if "dest_state w p = LevelDB_Dir" for p
    using that by (simp add: open_db_def leveldb_open_def CHECK_def then_do_def)
  ultimately show ?thesis using assms by (auto simp: main_def)
qed

theorem existing_destination_is_fatal_witness:
  "length (argv default_cmd) = 3 \<and> FLAGS_backend default_cmd = ''lmdb''
   \<and> dest_state rerun_world (argv default_cmd ! 2) \<noteq> Absent
   \<and> main default_cmd rerun_world = (Fatal ''mkdir failed'', [Mkdir ''out_db''])
   \<and> dest_state rerun_leveldb_world (argv (default_cmd\<lparr>FLAGS_backend := ''leveldb''\<rparr>) ! 2)
       = LevelDB_Dir
   \<and> main (default_cmd\<lparr>FLAGS_backend := ''leveldb''\<rparr>) rerun_leveldb_world
       = (Fatal ''Failed to open leveldb'', [LevelDB_Open ''out_db''])"
  using existing_destination_is_fatal [of default_cmd rerun_world]
    existing_destination_is_fatal [of "default_cmd\<lparr>FLAGS_backend := ''leveldb''\<rparr>" rerun_leveldb_world]
  by (simp add: default_cmd_def rerun_world_def rerun_leveldb_world_def quiet_world_def)

subsection \<open>Commits\<close>

lemma batches_append: "batches (tr @ evs) = foldl scan (batches tr) evs"
  by (simp add: batches_def)

lemma batches_commits: "length (fst (foldl scan st tr)) = length (fst st) + commits tr"
  by (induction tr arbitrary: st) (auto simp: scan_def commits_def)

lemma put_db_batches:
  "put_db w b k v tr = Inr tr1 \<Longrightarrow> batches tr1 = (fst (batches tr), Suc (snd (batches tr)))"
  using put_db_Inr [of w b k v tr tr1]
  by (auto simp: batches_append scan_def is_commit_def)

lemma commit_txn_batches:
  "commit_txn w b tr = Inr tr1 \<Longrightarrow> batches tr1 = (fst (batches tr) @ [snd (batches tr)], 0)"
  using commit_txn_Inr [of w b tr tr1]
  by (auto simp: batches_append scan_def is_commit_def)

lemma write_last_batch_batches:
  "write_last_batch w b tr = Inr tr1 \<Longrightarrow> batches tr1 = (fst (batches tr) @ [snd (batches tr)], 0)"
  using write_last_batch_Inr [of w b tr tr1]
  by (auto simp: batches_append scan_def is_commit_def)

lemma step_full:
  "Suc cnt mod 1000 = 0 \<Longrightarrow> Suc (cnt mod 1000) = 1000 \<and> Suc cnt div 1000 = Suc (cnt div 1000)"
  by (auto simp: mod_Suc div_Suc split: if_splits)

lemma step_partial:
  "Suc cnt mod 1000 \<noteq> 0 \<Longrightarrow> Suc cnt mod 1000 = Suc (cnt mod 1000) \<and> Suc cnt div 1000 = cnt div 1000"
  by (auto simp: mod_Suc div_Suc split: if_splits)

lemma store_Inr_batches:
  "store w b line_id cnt ls tr = Inr (cnt', tr') \<Longrightarrow>
   batches tr = (replicate (cnt div 1000) 1000, cnt mod 1000) \<Longrightarrow>
   batches tr' = (replicate (cnt' div 1000) 1000, cnt' mod 1000)"
proof (induction ls arbitrary: line_id cnt tr)
  case Nil
  then show ?case by simp
next
  case (Cons a ls)
  obtain file_name label where a: "a = (file_name, label)" by (cases a)
  from Cons.prems(1) obtain base tr1 tr2 where
    base: "file_name_base file_name = Some base"
    and put: "put_db w b (keystr line_id base) (valstr label) tr = Inr tr1"
    and com: "(if Suc cnt mod 1000 = 0 then commit_txn w b tr1 else Inr tr1) = Inr tr2"
    and rest: "store w b (Suc line_id) (Suc cnt) ls tr2 = Inr (cnt', tr')"
    unfolding a by (auto split: option.splits sum.splits if_splits)
  have b1: "batches tr1 = (replicate (cnt div 1000) 1000, Suc (cnt mod 1000))"
    using put_db_batches [OF put] Cons.prems(2) by simp
  have b2: "batches tr2 = (replicate (Suc cnt div 1000) 1000, Suc cnt mod 1000)"
  proof (cases "Suc cnt mod 1000 = 0")
    case True
    with com have "commit_txn w b tr1 = Inr tr2" by simp
    from commit_txn_batches [OF this] b1 step_full [OF True] True show ?thesis
      by (simp add: replicate_append_same)
  next
    case False
    with com have "tr2 = tr1" by simp
    with b1 step_partial [OF False] show ?thesis by simp
  qed
  from Cons.IH [OF rest b2] show ?case .
qed

lemma ceil_div:
  "(n + 999) div 1000 = n div 1000 + (if n mod 1000 \<noteq> 0 then 1 else 0)" for n :: nat
proof -
  define q r where "q = n div 1000" and "r = n mod 1000"
  have n: "n = q * 1000 + r" and r: "r < 1000" by (simp_all add: q_def r_def)
  have "(n + 999) div 1000 = q + (r + 999) div 1000"
    unfolding n by (simp add: add.assoc)
  moreover have "(r + 999) div 1000 = (if r \<noteq> 0 then 1 else 0)"
    using r by (simp add: div_eq_0_iff Suc_leI div_nat_eqI)
  ultimately show ?thesis by (simp add: q_def r_def)
qed

text \<open>
  A run over a list of at most \<^verbatim>\<open>INT_MAX\<close> entries, with a known backend, on a
  destination that is not there yet and in a world where no library call fails,
  goes through every put and every commit and returns 0.
\<close>

lemma file_name_base_total: "\<exists>base. file_name_base file_name = Some base"
  by (simp add: file_name_base_def substr_def)

lemma put_db_succeeds:
  assumes "\<not> faulty w (length tr)" and "b = ''leveldb'' \<or> b = ''lmdb''"
  shows "\<exists>tr1. put_db w b k v tr = Inr tr1 \<and> length tr1 = Suc (length tr)"
  using assms by (auto simp: put_db_def CHECK_def lib_call_def)

lemma commit_txn_succeeds:
  assumes "\<forall>k. \<not> faulty w k" and "b = ''leveldb'' \<or> b = ''lmdb''"
  shows "\<exists>tr1. commit_txn w b tr = Inr tr1"
  using assms by (auto simp: commit_txn_def CHECK_def lib_call_def then_do_def)

lemma write_last_batch_succeeds:
  assumes "\<forall>k. \<not> faulty w k" and "b = ''leveldb'' \<or> b = ''lmdb''"
  shows "\<exists>tr1. write_last_batch w b tr = Inr tr1"
  using assms by (auto simp: write_last_batch_def CHECK_def lib_call_def)

lemma close_db_succeeds:
  assumes "b = ''leveldb'' \<or> b = ''lmdb''"
  shows "\<exists>tr1. close_db b tr = Inr tr1"
  using assms by (auto simp: close_db_def)

lemma open_db_succeeds:
  assumes "\<forall>k. \<not> faulty w k" and "b = ''leveldb'' \<or> b = ''lmdb''"
    and "dest_state w p = Absent"
  shows "\<exists>tr1. open_db w b p tr = Inr tr1"
  using assms
  by (auto simp: open_db_def CHECK_def lib_call_def mkdir_def leveldb_open_def then_do_def)

lemma store_succeeds:
  assumes "\<forall>k. \<not> faulty w k" and "b = ''leveldb'' \<or> b = ''lmdb''"
  shows "int (line_id + length ls) \<le> INT_MAX \<Longrightarrow> int (cnt + length ls) \<le> INT_MAX
     \<Longrightarrow> \<exists>r. store w b line_id cnt ls tr = Inr r"
proof (induction ls arbitrary: line_id cnt tr)
  case Nil
  then show ?case by simp
next
  case (Cons a ls)
  obtain file_name label where a: "a = (file_name, label)" by (cases a)
  obtain base where base: "file_name_base file_name = Some base"
    using file_name_base_total by blast
  from assms obtain tr1 where
    put: "put_db w b (keystr line_id base) (valstr label) tr = Inr tr1"
    using put_db_succeeds [of w tr b] by blast
  from Cons.prems have c: "int cnt \<noteq> INT_MAX" and l: "int line_id \<noteq> INT_MAX"
    by simp_all
  obtain tr2 where
    com: "(if Suc cnt mod 1000 = 0 then commit_txn w b tr1 else Inr tr1) = Inr tr2"
    using commit_txn_succeeds [OF assms, of tr1] by (cases "Suc cnt mod 1000 = 0") auto
  from Cons.prems have "int (Suc line_id + length ls) \<le> INT_MAX"
    and "int (Suc cnt + length ls) \<le> INT_MAX" by simp_all
  from Cons.IH [OF this] obtain r where
    "store w b (Suc line_id) (Suc cnt) ls tr2 = Inr r" by blast
  with base put c l com show ?case
    unfolding a by (simp del: store.simps add: store.simps(2) [of w b line_id cnt file_name label ls tr])
qed

lemma main_completes:
  assumes "length (argv c) = 3"
    and "FLAGS_backend c = ''leveldb'' \<or> FLAGS_backend c = ''lmdb''"
    and "\<forall>k. \<not> faulty w k" and "dest_state w (argv c ! 2) = Absent"
    and "int (length (manifest_of c w)) \<le> INT_MAX"
  shows "fst (main c w) = Return 0"
proof -
  have n: "length (lines_of c w) = length (manifest_of c w)"
    by (simp add: lines_of_def length_shuffle)
  from assms(1) show ?thesis
  proof (cases rule: main_cases [where w = w])
    case (Open_Fails e tr)
    with open_db_succeeds [OF assms(3,2,4), of "[]"] show ?thesis by simp
  next
    case (Store_Fails tr0 e tr)
    with store_succeeds [OF assms(3,2), of 0 "lines_of c w" 0 tr0] assms(5) n
    show ?thesis by simp
  next
    case (Last_Fails tr0 cnt tr1 e tr)
    with write_last_batch_succeeds [OF assms(3,2), of tr1] show ?thesis by simp
  next
    case (Close_Fails tr0 cnt tr1 tr2 e tr)
    with close_db_succeeds [OF assms(2), of tr2] show ?thesis by simp
  next
    case (Completed tr0 cnt tr1 tr2 tr3)
    then show ?thesis by simp
  qed
qed

lemma read_lines_skip_newline: "read_lines (CHR 0x0A # s) = read_lines s"
proof -
  have "extract_string (CHR 0x0A # s) = extract_string s"
    by (simp add: extract_string_def isspace_def)
  then show ?thesis
    by (simp add: read_lines.simps [of "CHR 0x0A # s"] read_lines.simps [of s])
qed

lemma read_lines_one_line:
  "read_lines (''a.jpg 1\<newline>'' @ s) = (''a.jpg'', 1) # read_lines s"
proof -
  have sp: "isspace (CHR '' '')" "isspace (CHR 0x0A)"
    and ns: "\<not> isspace (CHR ''a'')" "\<not> isspace (CHR ''.'')" "\<not> isspace (CHR ''j'')"
      "\<not> isspace (CHR ''p'')" "\<not> isspace (CHR ''g'')" "\<not> isspace (CHR ''1'')"
    by (simp_all add: isspace_def)
  have dg: "isdigit (CHR ''1'')" "\<not> isdigit (CHR 0x0A)"
    by (simp_all add: isdigit_def)
  have e1: "extract_string (''a.jpg 1\<newline>'' @ s) = Some (''a.jpg'', '' 1\<newline>'' @ s)"
    by (simp add: extract_string_def sp ns)
  have e2: "extract_int ('' 1\<newline>'' @ s) = Some (1, CHR 0x0A # s)"
    by (simp add: extract_int_def sp ns dg decimal_value_def digit_val_def
        INT_MIN_def INT_MAX_def)
  show ?thesis
    by (simp add: read_lines.simps [of "''a.jpg 1\<newline>'' @ s"] e1 e2 read_lines_skip_newline
        del: append_Cons)
qed

lemma read_lines_many:
  "read_lines (concat (replicate n ''a.jpg 1\<newline>'')) = replicate n (''a.jpg'', 1)"
proof (induction n)
  case 0
  have "extract_string [] = None" by (simp add: extract_string_def)
  then show ?case by (simp add: read_lines.simps [of "[]"])
next
  case (Suc n)
  have "read_lines (''a.jpg 1\<newline>'' @ concat (replicate n ''a.jpg 1\<newline>''))
      = (''a.jpg'', 1) # read_lines (concat (replicate n ''a.jpg 1\<newline>''))"
    by (rule read_lines_one_line)
  with Suc show ?case by simp
qed


lemma manifest_of_many_world:
  "manifest_of c (many_world n) = replicate n (''a.jpg'', 1)"
  by (simp add: manifest_of_def many_world_def many_lines_def read_lines_many)

lemma commits_of_completed:
  assumes "fst (main c w) = Return 0"
  shows "commits (snd (main c w)) = (length (manifest_of c w) + 999) div 1000
       \<and> batches (snd (main c w)) =
           (replicate (length (manifest_of c w) div 1000) 1000
              @ (if length (manifest_of c w) mod 1000 \<noteq> 0
                 then [length (manifest_of c w) mod 1000] else []), 0)"
proof -
  define N where "N = length (lines_of c w)"
  have e: "length (manifest_of c w) = N"
    by (simp add: N_def lines_of_def length_shuffle)
  from assms obtain tr0 cnt tr1 tr2 tr3 where
    o: "open_db w (FLAGS_backend c) (argv c ! 2) [] = Inr tr0"
    and s: "store w (FLAGS_backend c) 0 0 (lines_of c w) tr0 = Inr (cnt, tr1)"
    and l: "(if cnt mod 1000 \<noteq> 0 then write_last_batch w (FLAGS_backend c) tr1 else Inr tr1) = Inr tr2"
    and cl: "close_db (FLAGS_backend c) tr2 = Inr tr3"
    and m: "main c w = (Return 0, tr3)"
    by (rule main_completed)
  have b0: "batches tr0 = (replicate (0 div 1000) 1000, 0 mod 1000)"
    using open_db_Inr [OF o] by (auto simp: batches_def scan_def is_commit_def)
  have cnt: "cnt = N"
    using store_Inr_puts [OF s] by (simp add: N_def)
  have b1: "batches tr1 = (replicate (N div 1000) 1000, N mod 1000)"
    using store_Inr_batches [OF s b0] cnt by simp
  have b2: "batches tr2 =
      (replicate (N div 1000) 1000 @ (if N mod 1000 \<noteq> 0 then [N mod 1000] else []), 0)"
  proof (cases "N mod 1000 = 0")
    case True
    with l cnt b1 show ?thesis by simp
  next
    case False
    with l cnt have "write_last_batch w (FLAGS_backend c) tr1 = Inr tr2" by simp
    from write_last_batch_batches [OF this] b1 False show ?thesis by simp
  qed
  have "batches tr3 = batches tr2"
    using close_db_Inr [OF cl] by (auto simp: batches_append scan_def is_commit_def)
  with b2 m have b3: "batches (snd (main c w)) =
      (replicate (N div 1000) 1000 @ (if N mod 1000 \<noteq> 0 then [N mod 1000] else []), 0)"
    by simp
  have "commits (snd (main c w)) = length (fst (batches (snd (main c w))))"
    using batches_commits [of "([], 0)" "snd (main c w)"] by (simp add: batches_def)
  with b3 show ?thesis
    unfolding e by (simp add: ceil_div)
qed

text \<open>
  C2. A run that is processed to completion over \<open>N\<close> entries commits after every
  1000 staged records and once more for a last partial batch: the committed
  batches are \<open>N div 1000\<close> batches of 1000 records followed, if
  \<open>N mod 1000 \<noteq> 0\<close>, by one batch of \<open>N mod 1000\<close> records, nothing is left
  uncommitted, and the number of commits is \<open>\<lceil>N / 1000\<rceil>\<close>, which is 0 for
  \<open>N = 0\<close>. Such runs exist for every \<open>N\<close> up to \<^verbatim>\<open>INT_MAX\<close>: called with
  its two positional arguments and a known backend, on a destination that is not
  there yet and with no library call failing, the program returns 0, whatever the
  number of commits on the way.
\<close>

theorem commits_per_thousand:
  "(fst (main c w) = Return 0 \<longrightarrow>
      commits (snd (main c w)) = (length (manifest_of c w) + 999) div 1000
      \<and> batches (snd (main c w)) =
          (replicate (length (manifest_of c w) div 1000) 1000
             @ (if length (manifest_of c w) mod 1000 \<noteq> 0
                then [length (manifest_of c w) mod 1000] else []), 0))
   \<and> (length (argv c) = 3 \<and> (FLAGS_backend c = ''leveldb'' \<or> FLAGS_backend c = ''lmdb'')
        \<and> (\<forall>k. \<not> faulty w k) \<and> dest_state w (argv c ! 2) = Absent
        \<and> int (length (manifest_of c w)) \<le> INT_MAX
      \<longrightarrow> fst (main c w) = Return 0)"
  using commits_of_completed [of c w] main_completes [of c w] by blast

theorem commits_per_thousand_witness:
  "length (argv default_cmd) = 3 \<and> FLAGS_backend default_cmd = ''lmdb''
   \<and> (\<forall>k. \<not> faulty (many_world 2001) k)
   \<and> dest_state (many_world 2001) (argv default_cmd ! 2) = Absent
   \<and> length (manifest_of default_cmd (many_world 2001)) = 2001
   \<and> fst (main default_cmd (many_world 2001)) = Return 0
   \<and> commits (snd (main default_cmd (many_world 2001))) = 3
   \<and> batches (snd (main default_cmd (many_world 2001))) = ([1000, 1000, 1], 0)
   \<and> FLAGS_backend (default_cmd\<lparr>FLAGS_backend := ''leveldb''\<rparr>) = ''leveldb''
   \<and> length (manifest_of (default_cmd\<lparr>FLAGS_backend := ''leveldb''\<rparr>) (many_world 1000)) = 1000
   \<and> fst (main (default_cmd\<lparr>FLAGS_backend := ''leveldb''\<rparr>) (many_world 1000)) = Return 0
   \<and> commits (snd (main (default_cmd\<lparr>FLAGS_backend := ''leveldb''\<rparr>) (many_world 1000))) = 1
   \<and> batches (snd (main (default_cmd\<lparr>FLAGS_backend := ''leveldb''\<rparr>) (many_world 1000)))
       = ([1000], 0)"
proof -
  let ?l = "default_cmd\<lparr>FLAGS_backend := ''leveldb''\<rparr>"
  have a: "length (argv default_cmd) = 3" "FLAGS_backend default_cmd = ''lmdb''"
    "length (argv ?l) = 3" "FLAGS_backend ?l = ''leveldb''"
    by (simp_all add: default_cmd_def)
  have f: "\<forall>k. \<not> faulty (many_world n) k" for n
    by (simp add: many_world_def quiet_world_def)
  have d: "dest_state (many_world n) (argv default_cmd ! 2) = Absent"
    "dest_state (many_world n) (argv ?l ! 2) = Absent" for n
    by (simp_all add: many_world_def quiet_world_def)
  have m: "length (manifest_of default_cmd (many_world 2001)) = 2001"
    "length (manifest_of ?l (many_world 1000)) = 1000"
    by (simp_all add: manifest_of_many_world)
  have i: "int 2001 \<le> INT_MAX" "int 1000 \<le> INT_MAX"
    by (simp_all add: INT_MAX_def)
  note t1 = commits_per_thousand [of default_cmd "many_world 2001", unfolded m]
  note t2 = commits_per_thousand [of ?l "many_world 1000", unfolded m]
  from t1 a f d i have r1: "fst (main default_cmd (many_world 2001)) = Return 0"
    by blast
  from t2 a f d i have r2: "fst (main ?l (many_world 1000)) = Return 0"
    by blast
  have n: "replicate 2 (1000::nat) = [1000, 1000]" "replicate 1 (1000::nat) = [1000]"
    by (simp_all add: numeral_2_eq_2)
  from t1 r1 have c1: "commits (snd (main default_cmd (many_world 2001))) = 3"
    and b1: "batches (snd (main default_cmd (many_world 2001))) = ([1000, 1000, 1], 0)"
    by (simp_all add: n)
  from t2 r2 have c2: "commits (snd (main ?l (many_world 1000))) = 1"
    and b2: "batches (snd (main ?l (many_world 1000))) = ([1000], 0)"
    by (simp_all add: n)
  from a f [of 2001] d(1) [of 2001] m r1 c1 b1 r2 c2 b2 show ?thesis
    by (intro conjI)
qed

subsection \<open>The two-line list file\<close>

text \<open>
  C3. For the list file with the two lines \<^verbatim>\<open>cat/a.jpg 3\<close> and
  \<^verbatim>\<open>dog/b.jpg 5\<close>, read without shuffling, a run that returns 0 stages exactly
  the records \<^verbatim>\<open>00000000_cat/a\<close> with value \<^verbatim>\<open>0003\<close> and
  \<^verbatim>\<open>00000001_dog/b\<close> with value \<^verbatim>\<open>0005\<close>, in this order, with either backend.
\<close>

theorem two_entry_manifest:
  assumes "file_content w (argv c ! 1) = Some two_lines"
    and "\<not> FLAGS_shuffle c" and "fst (main c w) = Return 0"
  shows "puts (snd (main c w))
         = [(''00000000_cat/a'', ''0003''), (''00000001_dog/b'', ''0005'')]"
proof -
  have r: "read_lines two_lines = [(''cat/a.jpg'', 3), (''dog/b.jpg'', 5)]"
    by code_simp
  have "lines_of c w = [(''cat/a.jpg'', 3), (''dog/b.jpg'', 5)]"
    using assms(1,2) r by (simp add: lines_of_def manifest_of_def)
  moreover have "records [(''cat/a.jpg'', 3), (''dog/b.jpg'', 5)]
      = map Some [(''00000000_cat/a'', ''0003''), (''00000001_dog/b'', ''0005'')]"
    by code_simp
  ultimately have "map Some (puts (snd (main c w)))
      = map Some [(''00000000_cat/a'', ''0003''), (''00000001_dog/b'', ''0005'')]"
    using puts_of_completed [OF assms(3)] by simp
  then show ?thesis by (rule map_Some_eq)
qed

theorem two_entry_manifest_witness:
  "file_content quiet_world (argv default_cmd ! 1) = Some two_lines
   \<and> \<not> FLAGS_shuffle default_cmd
   \<and> fst (main default_cmd quiet_world) = Return 0
   \<and> puts (snd (main default_cmd quiet_world))
       = [(''00000000_cat/a'', ''0003''), (''00000001_dog/b'', ''0005'')]"
proof -
  have b: "file_content quiet_world (argv default_cmd ! 1) = Some two_lines"
    by (simp add: default_cmd_def quiet_world_def)
  have c: "\<not> FLAGS_shuffle default_cmd" by (simp add: default_cmd_def)
  have d: "fst (main default_cmd quiet_world) = Return 0" by code_simp
  from two_entry_manifest [OF b c d] b c d show ?thesis by (intro conjI)
qed

subsection \<open>Sequence numbers\<close>

text \<open>
  C4. In every run, however it ends, the sequence numbers embedded in the keys of
  the staged records are \<open>0, 1, 2, \<dots>\<close> in this order, hence strictly
  increasing, and no two staged records have the same key; the record at position
  \<open>i\<close> is the one built from the entry at position \<open>i\<close> of the list the
  program works on, which is the list read from the file when shuffling is off and
  a rearrangement of it otherwise. A run that returns 0 over \<open>N\<close> entries stages
  \<open>N\<close> records, so its sequence numbers are exactly \<open>0, \<dots>, N - 1\<close>.
\<close>

theorem sequence_numbers_count_up:
  "map (\<lambda>p. key_seq (fst p)) (puts (snd (main c w))) = [0..<length (puts (snd (main c w)))]
   \<and> sorted_wrt (<) (map (\<lambda>p. key_seq (fst p)) (puts (snd (main c w))))
   \<and> distinct (map fst (puts (snd (main c w))))
   \<and> length (puts (snd (main c w))) \<le> length (lines_of c w)
   \<and> map Some (puts (snd (main c w)))
       = take (length (puts (snd (main c w)))) (records (lines_of c w))
   \<and> (fst (main c w) = Return 0 \<longrightarrow> length (puts (snd (main c w))) = length (lines_of c w))
   \<and> (if FLAGS_shuffle c then mset (lines_of c w) = mset (manifest_of c w)
       else lines_of c w = manifest_of c w)"
proof -
  note a = puts_of_any_run [of c w]
  from a have n: "length (puts (snd (main c w))) \<le> length (lines_of c w)"
    and b: "int (length (puts (snd (main c w)))) \<le> INT_MAX + 1"
    and p: "map Some (puts (snd (main c w)))
       = take (length (puts (snd (main c w)))) (records (lines_of c w))"
    by blast+
  note k = staged_key_seq [OF p n b]
  have s: "sorted_wrt (<) (map (\<lambda>p. key_seq (fst p)) (puts (snd (main c w))))"
    unfolding k by simp
  have "distinct (map key_seq (map fst (puts (snd (main c w)))))"
    using k by (simp add: comp_def)
  then have d: "distinct (map fst (puts (snd (main c w))))"
    unfolding distinct_map [of key_seq] by (rule conjunct1)
  have f: "length (puts (snd (main c w))) = length (lines_of c w)"
    if "fst (main c w) = Return 0"
    using puts_of_completed [OF that] length_map [of Some "puts (snd (main c w))"]
    by (simp add: records_def)
  have l: "if FLAGS_shuffle c then mset (lines_of c w) = mset (manifest_of c w)
          else lines_of c w = manifest_of c w"
    by (simp add: lines_of_def mset_shuffle)
  from k s d n p f l show ?thesis by blast
qed

theorem sequence_numbers_count_up_witness:
  "fst (main default_cmd quiet_world) = Return 0
   \<and> length (lines_of default_cmd quiet_world) = 2
   \<and> map fst (puts (snd (main default_cmd quiet_world)))
       = [''00000000_cat/a'', ''00000001_dog/b'']
   \<and> map (\<lambda>p. key_seq (fst p)) (puts (snd (main default_cmd quiet_world))) = [0, 1]"
proof -
  have a: "fst (main default_cmd quiet_world) = Return 0" by code_simp
  have b: "length (lines_of default_cmd quiet_world) = 2" by code_simp
  have c: "map fst (puts (snd (main default_cmd quiet_world)))
       = [''00000000_cat/a'', ''00000001_dog/b'']" by code_simp
  have d: "[0..<2] = [0, Suc 0]" by (simp add: upt_rec)
  note t = sequence_numbers_count_up [of default_cmd quiet_world]
  from t a b have len: "length (puts (snd (main default_cmd quiet_world))) = 2"
    by simp
  from t [THEN conjunct1, unfolded len d] a b c show ?thesis by simp
qed

subsection \<open>Shuffling before writing\<close>

text \<open>
  C5. When shuffling is asked for, the list is permuted as a whole before the first
  record is built: in every run, however it ends, the records staged are, position
  by position, those of the first entries of the shuffled list, and a run that
  returns 0 stages the records of all of it. The shuffled list holds the same
  entries as the list read from the file, each as often; only their order may
  differ.
\<close>

theorem shuffle_before_writing:
  assumes "FLAGS_shuffle c"
  shows "map Some (puts (snd (main c w)))
           = take (length (puts (snd (main c w))))
               (records (shuffle (draw w) (manifest_of c w)))
       \<and> (fst (main c w) = Return 0 \<longrightarrow>
            map Some (puts (snd (main c w))) = records (shuffle (draw w) (manifest_of c w)))
       \<and> mset (shuffle (draw w) (manifest_of c w)) = mset (manifest_of c w)"
proof -
  from assms have l: "lines_of c w = shuffle (draw w) (manifest_of c w)"
    by (simp add: lines_of_def)
  have "map Some (puts (snd (main c w)))
           = take (length (puts (snd (main c w)))) (records (lines_of c w))"
    using puts_of_any_run [of c w] by blast
  moreover have "map Some (puts (snd (main c w))) = records (lines_of c w)"
    if "fst (main c w) = Return 0"
    using that by (rule puts_of_completed)
  ultimately show ?thesis
    unfolding l by (simp add: mset_shuffle)
qed

theorem shuffle_before_writing_witness:
  "FLAGS_shuffle (default_cmd\<lparr>FLAGS_shuffle := True\<rparr>)
   \<and> fst (main (default_cmd\<lparr>FLAGS_shuffle := True\<rparr>) quiet_world) = Return 0
   \<and> manifest_of (default_cmd\<lparr>FLAGS_shuffle := True\<rparr>) quiet_world
       = [(''cat/a.jpg'', 3), (''dog/b.jpg'', 5)]
   \<and> shuffle (draw quiet_world) (manifest_of (default_cmd\<lparr>FLAGS_shuffle := True\<rparr>) quiet_world)
       = [(''dog/b.jpg'', 5), (''cat/a.jpg'', 3)]
   \<and> map Some (puts (snd (main (default_cmd\<lparr>FLAGS_shuffle := True\<rparr>) quiet_world)))
       = records [(''dog/b.jpg'', 5), (''cat/a.jpg'', 3)]"
proof -
  let ?c = "default_cmd\<lparr>FLAGS_shuffle := True\<rparr>"
  have a: "FLAGS_shuffle ?c" by simp
  have b: "fst (main ?c quiet_world) = Return 0" by code_simp
  have m: "manifest_of ?c quiet_world = [(''cat/a.jpg'', 3), (''dog/b.jpg'', 5)]" by code_simp
  have s: "shuffle (draw quiet_world) (manifest_of ?c quiet_world)
       = [(''dog/b.jpg'', 5), (''cat/a.jpg'', 3)]" by code_simp
  note t = shuffle_before_writing [OF a, of quiet_world, THEN conjunct2, THEN conjunct1]
  from t b have "map Some (puts (snd (main ?c quiet_world)))
      = records (shuffle (draw quiet_world) (manifest_of ?c quiet_world))"
    by (rule mp)
  with a b m s show ?thesis by simp
qed

subsection \<open>Reading the list file as tokens\<close>

lemma split_ws_skip: "split_ws [] s = split_ws [] (dropWhile isspace s)"
  by (induction s) simp_all

lemma split_ws_run:
  "\<forall>c \<in> set ns. \<not> isspace c \<Longrightarrow> split_ws cur (ns @ rest) = split_ws (cur @ ns) rest"
  by (induction ns arbitrary: cur) simp_all

lemma split_ws_close:
  "cur \<noteq> [] \<Longrightarrow> rest = [] \<or> isspace (hd rest) \<Longrightarrow> split_ws cur rest = cur # split_ws [] rest"
  by (cases rest) auto

lemma rest_after_token:
  "dropWhile (\<lambda>c. \<not> isspace c) s = [] \<or> isspace (hd (dropWhile (\<lambda>c. \<not> isspace c) s))"
  using hd_dropWhile [of "\<lambda>c. \<not> isspace c" s] by auto

lemma spec_tokens_unfold:
  "spec_tokens s = (case extract_string s of None \<Rightarrow> [] | Some (t, r) \<Rightarrow> t # spec_tokens r)"
proof -
  define s1 where "s1 = dropWhile isspace s"
  have skip: "spec_tokens s = split_ws [] s1"
    unfolding spec_tokens_def s1_def by (rule split_ws_skip)
  show ?thesis
  proof (cases "s1 = []")
    case True
    with skip show ?thesis
      by (simp add: extract_string_def s1_def [symmetric])
  next
    case False
    define t r where "t = takeWhile (\<lambda>c. \<not> isspace c) s1"
      and "r = dropWhile (\<lambda>c. \<not> isspace c) s1"
    from False have "\<not> isspace (hd s1)"
      unfolding s1_def by (rule hd_dropWhile)
    with False have t: "t \<noteq> []"
      by (cases s1) (auto simp: t_def)
    have "\<forall>c \<in> set t. \<not> isspace c"
      by (auto simp: t_def dest: set_takeWhileD)
    then have "split_ws [] (t @ r) = split_ws t r"
      using split_ws_run [of t "[]" r] by simp
    also have "\<dots> = t # split_ws [] r"
      using t rest_after_token [of s1] unfolding r_def by (intro split_ws_close)
    finally have "split_ws [] s1 = t # split_ws [] r"
      by (simp add: t_def r_def)
    with False skip show ?thesis
      by (simp add: spec_tokens_def extract_string_def s1_def [symmetric] t_def r_def)
  qed
qed

text \<open>What \<^verbatim>\<open>infile >> filename\<close> returns is the next token of the stream.\<close>

lemma extract_string_token:
  assumes "extract_string s = Some (t, r)"
  shows "t \<noteq> []" and "\<forall>c \<in> set t. \<not> isspace c" and "r = [] \<or> isspace (hd r)"
    and "dropWhile isspace s = t @ r"
proof -
  define s1 where "s1 = dropWhile isspace s"
  from assms have ne: "s1 \<noteq> []" and t: "t = takeWhile (\<lambda>c. \<not> isspace c) s1"
    and r: "r = dropWhile (\<lambda>c. \<not> isspace c) s1"
    by (auto simp: extract_string_def s1_def Let_def split: if_splits)
  from ne have "\<not> isspace (hd s1)"
    unfolding s1_def by (rule hd_dropWhile)
  with ne show "t \<noteq> []"
    by (cases s1) (auto simp: t)
  show "\<forall>c \<in> set t. \<not> isspace c"
    by (auto simp: t dest: set_takeWhileD)
  show "r = [] \<or> isspace (hd r)"
    unfolding r by (rule rest_after_token)
  show "dropWhile isspace s = t @ r"
    by (simp add: t r s1_def)
qed

lemma space_no_digit: "isspace c \<Longrightarrow> \<not> isdigit c"
  by (auto simp: isspace_def isdigit_def)

lemma space_no_sign: "isspace c \<Longrightarrow> c \<noteq> CHR ''-'' \<and> c \<noteq> CHR ''+''"
  by (auto simp: isspace_def)

lemma digits_before_rest:
  assumes "r = [] \<or> isspace (hd r)"
  shows "takeWhile isdigit (x @ r) = takeWhile isdigit x"
    and "dropWhile isdigit (x @ r) = dropWhile isdigit x @ r"
proof -
  from assms have r: "takeWhile isdigit r = []" "dropWhile isdigit r = r"
    by (cases r; auto dest: space_no_digit)+
  show "takeWhile isdigit (x @ r) = takeWhile isdigit x"
    by (induction x) (simp_all add: r)
  show "dropWhile isdigit (x @ r) = dropWhile isdigit x @ r"
    by (induction x) (simp_all add: r)
qed

lemma extract_int_first_token:
  assumes "extract_string s = Some (l, r)"
  shows "extract_int s = map_option (\<lambda>(v, q). (v, q @ r)) (extract_int l)"
proof -
  note tok = extract_string_token [OF assms]
  from tok(1) obtain c cs where l: "l = c # cs" by (cases l) auto
  with tok(2) have c: "\<not> isspace c" by simp
  then have dl: "dropWhile isspace l = l"
    by (simp add: l)
  have tk: "takeWhile isdigit (cs @ r) = takeWhile isdigit cs"
    and dr: "dropWhile isdigit (cs @ r) = dropWhile isdigit cs @ r"
    using digits_before_rest [OF tok(3)] by simp_all
  show ?thesis
    unfolding extract_int_def tok(4) dl
    unfolding l
    by (simp add: Let_def tk dr)
qed

lemma digits_all_or_rest:
  "list_all isdigit x \<longleftrightarrow> dropWhile isdigit x = []"
  "list_all isdigit x \<Longrightarrow> takeWhile isdigit x = x"
  by (induction x) auto

lemma spec_int_token_extract_int:
  assumes "t \<noteq> []" and "\<forall>c \<in> set t. \<not> isspace c"
  shows "spec_int_token t = (case extract_int t of None \<Rightarrow> None
                         | Some (v, q) \<Rightarrow> if q = [] then Some v else None)"
proof -
  from assms(1) obtain c cs where t: "t = c # cs" by (cases t) auto
  with assms(2) have c: "\<not> isspace c" by simp
  then have dl: "dropWhile isspace t = t"
    by (simp add: t)
  define x where "x = (if c = CHR ''-'' \<or> c = CHR ''+'' then cs else t)"
  define val where "val ds = (if c = CHR ''-'' then - decimal_value ds else decimal_value ds)"
    for ds
  have ei: "extract_int t =
      (if takeWhile isdigit x = [] \<or> val (takeWhile isdigit x) < INT_MIN
          \<or> INT_MAX < val (takeWhile isdigit x) then None
       else Some (val (takeWhile isdigit x), dropWhile isdigit x))"
    unfolding extract_int_def dl Let_def x_def val_def
    unfolding t by (simp only: list.case)
  have it: "spec_int_token t =
      (if x \<noteq> [] \<and> list_all isdigit x \<and> INT_MIN \<le> val x \<and> val x \<le> INT_MAX
       then Some (val x) else None)"
    unfolding spec_int_token_def Let_def x_def val_def
    unfolding t by (simp only: list.case)
  show ?thesis
  proof (cases "list_all isdigit x")
    case True
    with digits_all_or_rest [of x] have dw: "dropWhile isdigit x = []"
      and tw: "takeWhile isdigit x = x"
      by simp_all
    from True show ?thesis
      unfolding ei it tw dw by auto
  next
    case False
    with digits_all_or_rest(1) [of x] have dw: "dropWhile isdigit x \<noteq> []"
      by simp
    from False show ?thesis
      unfolding ei it by (auto simp: list_all_iff)
  qed
qed

lemma read_lines_clean:
  assumes "list_all clean_label (label_tokens (spec_tokens s))"
  shows "read_lines s = spec_load s"
  using assms unfolding spec_load_def
proof (induction s rule: read_lines.induct)
  case (1 s)
  show ?case
  proof (cases "extract_string s")
    case None
    then show ?thesis
      by (simp add: read_lines.simps [of s] spec_tokens_unfold [of s])
  next
    case (Some a)
    obtain p s1 where a: "a = (p, s1)" by (cases a)
    note ps = Some [unfolded a]
    show ?thesis
    proof (cases "extract_string s1")
      case None
      then have d: "dropWhile isspace s1 = []"
        by (simp add: extract_string_def Let_def split: if_splits)
      have "extract_int s1 = None"
        unfolding extract_int_def d by simp
      with ps None show ?thesis
        by (simp add: read_lines.simps [of s] spec_tokens_unfold [of s] spec_tokens_unfold [of s1])
    next
      case l: (Some b)
      obtain l r where b: "b = (l, r)" by (cases b)
      note ls = l [unfolded b]
      note tok = extract_string_token [OF ls]
      have tks: "spec_tokens s = p # l # spec_tokens r"
        using ps ls by (simp add: spec_tokens_unfold [of s] spec_tokens_unfold [of s1])
      with "1.prems" have cl: "clean_label l"
        and rest: "list_all clean_label (label_tokens (spec_tokens r))"
        by simp_all
      note ei = extract_int_first_token [OF ls]
      note it = spec_int_token_extract_int [OF tok(1,2)]
      show ?thesis
      proof (cases "extract_int l")
        case None
        with ei it ps tks show ?thesis
          by (simp add: read_lines.simps [of s])
      next
        case v: (Some d)
        obtain v q where d: "d = (v, q)" by (cases d)
        from cl v d have q: "q = []"
          by (simp add: clean_label_def)
        from ei v d q have e1: "extract_int s1 = Some (v, r)" by simp
        from it v d q have e2: "spec_int_token l = Some v" by simp
        have "read_lines r = spec_pairs (spec_tokens r)"
          using ps e1 rest by (intro "1.IH") simp_all
        with ps e1 e2 tks show ?thesis
          by (simp add: read_lines.simps [of s])
      qed
    qed
  qed
qed

lemma spec_load_prefix: "prefix (spec_load s) (read_lines s)"
  unfolding spec_load_def
proof (induction s rule: read_lines.induct)
  case (1 s)
  show ?case
  proof (cases "extract_string s")
    case None
    then show ?thesis
      by (simp add: spec_tokens_unfold [of s])
  next
    case (Some a)
    obtain p s1 where a: "a = (p, s1)" by (cases a)
    note ps = Some [unfolded a]
    show ?thesis
    proof (cases "extract_string s1")
      case None
      with ps show ?thesis
        by (simp add: spec_tokens_unfold [of s] spec_tokens_unfold [of s1])
    next
      case l: (Some b)
      obtain l r where b: "b = (l, r)" by (cases b)
      note ls = l [unfolded b]
      note tok = extract_string_token [OF ls]
      have tks: "spec_tokens s = p # l # spec_tokens r"
        using ps ls by (simp add: spec_tokens_unfold [of s] spec_tokens_unfold [of s1])
      note ei = extract_int_first_token [OF ls]
      note it = spec_int_token_extract_int [OF tok(1,2)]
      show ?thesis
      proof (cases "spec_int_token l")
        case None
        with tks show ?thesis by simp
      next
        case (Some v)
        with it have "extract_int l = Some (v, [])"
          by (auto split: option.splits if_splits)
        with ei have e1: "extract_int s1 = Some (v, r)" by simp
        have "prefix (spec_pairs (spec_tokens r)) (read_lines r)"
          using ps e1 by (intro "1.IH") simp_all
        with ps e1 Some tks show ?thesis
          by (simp add: read_lines.simps [of s])
      qed
    qed
  qed
qed

text \<open>
  C6, as stated, fails: in the list file \<^verbatim>\<open>a.jpg 3b.jpg 5\<close> the label field ends
  at the first character that is not a digit, not at white space, and what is left
  of the token starts the next path. The program reads two entries, the second with
  a path that is no token of the file; token by token, no pair parses.
\<close>

theorem glued_label_counterexample:
  "read_lines glued_lines = [(''a.jpg'', 3), (''b.jpg'', 5)]
   \<and> spec_tokens glued_lines = [''a.jpg'', ''3b.jpg'', ''5'']
   \<and> spec_load glued_lines = []"
  by code_simp

text \<open>
  C6, amended. The loader reads pairs by stream extraction, a path up to the next
  white space and a label as a sign and digits up to the first other character,
  and stops silently at the first pair that fails to extract, keeping the pairs
  before it. It always returns at least the longest parseable prefix of the
  white-space-delimited token pairs, and exactly that prefix when on every label
  token the extraction of an integer fails or uses up the whole token.
\<close>

theorem loader_reads_token_pairs:
  "prefix (spec_load s) (read_lines s)
   \<and> (list_all clean_label (label_tokens (spec_tokens s)) \<longrightarrow> read_lines s = spec_load s)"
  using spec_load_prefix [of s] read_lines_clean [of s] by blast

theorem loader_reads_token_pairs_witness:
  "list_all clean_label (label_tokens (spec_tokens broken_lines))
   \<and> spec_tokens broken_lines
       = [''cat/a.jpg'', ''3'', ''dog/b.jpg'', ''x'', ''emu/c.jpg'', ''7'']
   \<and> read_lines broken_lines = [(''cat/a.jpg'', 3)]"
proof -
  have a: "list_all clean_label (label_tokens (spec_tokens broken_lines))" by code_simp
  have b: "spec_tokens broken_lines
       = [''cat/a.jpg'', ''3'', ''dog/b.jpg'', ''x'', ''emu/c.jpg'', ''7'']" by code_simp
  have c: "spec_load broken_lines = [(''cat/a.jpg'', 3)]" by code_simp
  from loader_reads_token_pairs [of broken_lines] a b c show ?thesis by simp
qed

subsection \<open>Unknown backend\<close>

text \<open>
  C7. With a backend string other than \<^verbatim>\<open>leveldb\<close> and \<^verbatim>\<open>lmdb\<close> the program
  issues no database call at all, so no record is staged and nothing is committed,
  and it never returns 0; called with its two positional arguments it ends in the
  fatal log \<^verbatim>\<open>Unknown db backend\<close> raised when the database is opened, before
  the loop over the entries.
\<close>

theorem unknown_backend_is_fatal:
  assumes "FLAGS_backend c \<noteq> ''leveldb''" and "FLAGS_backend c \<noteq> ''lmdb''"
  shows "snd (main c w) = [] \<and> puts (snd (main c w)) = [] \<and> commits (snd (main c w)) = 0
         \<and> fst (main c w) \<noteq> Return 0
         \<and> (length (argv c) = 3 \<longrightarrow> fst (main c w) = Fatal ''Unknown db backend'')"
proof -
  have "main c w = (if length (argv c) \<noteq> 3 then (Return 1, [])
                    else (Fatal ''Unknown db backend'', []))"
    unfolding main_def Let_def open_db_unknown [OF assms] by (simp only: sum.case)
  then show ?thesis by (simp add: puts_def commits_def)
qed

theorem unknown_backend_is_fatal_witness:
  "FLAGS_backend (default_cmd\<lparr>FLAGS_backend := ''rocksdb''\<rparr>) \<noteq> ''leveldb''
   \<and> FLAGS_backend (default_cmd\<lparr>FLAGS_backend := ''rocksdb''\<rparr>) \<noteq> ''lmdb''
   \<and> length (argv (default_cmd\<lparr>FLAGS_backend := ''rocksdb''\<rparr>)) = 3
   \<and> main (default_cmd\<lparr>FLAGS_backend := ''rocksdb''\<rparr>) quiet_world
       = (Fatal ''Unknown db backend'', [])"
  using unknown_backend_is_fatal
    [of "default_cmd\<lparr>FLAGS_backend := ''rocksdb''\<rparr>" quiet_world]
  by (simp add: default_cmd_def prod_eq_iff)

subsection \<open>Closing the database\<close>

text \<open>
  C8, as stated, fails: when a put of lmdb fails in the loop, the run aborts in the
  check of line 148 and the trace holds no closing call.
\<close>

theorem close_not_reached_counterexample:
  "main default_cmd put_fails_world =
     (Fatal ''mdb_put failed'',
      [Mkdir ''out_db'', Mdb_Env_Create, Mdb_Env_Set_Mapsize, Mdb_Env_Open ''out_db'',
       Mdb_Txn_Begin, Mdb_Open, Mdb_Put ''00000000_cat/a'' ''0003''])"
  by code_simp

text \<open>
  C8, amended. The closing calls of the backend are issued exactly when the run
  returns 0, and they are then the last calls of the trace; a run that ends in
  any other way (usage error, fatal log) issues no closing call.
\<close>

theorem close_reached_iff_completed:
  "filter is_close (snd (main c w)) =
     (if fst (main c w) = Return 0 then close_calls (FLAGS_backend c) else [])
   \<and> suffix (filter is_close (snd (main c w))) (snd (main c w))"
proof (cases "length (argv c) = 3")
  case False
  then show ?thesis by (simp add: main_def)
next
  case True
  have o: "filter is_close tr0 = []" if "open_db w (FLAGS_backend c) (argv c ! 2) [] = Inr tr0" for tr0
    using open_db_Inr [OF that] by (auto simp: is_close_def)
  from True show ?thesis
  proof (cases rule: main_cases [where w = w])
    case (Open_Fails e tr)
    with open_db_Inl [OF Open_Fails(1)] show ?thesis by auto
  next
    case (Store_Fails tr0 e tr)
    with store_Inl [OF Store_Fails(2)] o [OF Store_Fails(1)] show ?thesis by auto
  next
    case (Last_Fails tr0 cnt tr1 e tr)
    with write_last_batch_Inl [OF Last_Fails(4)] store_Inr_close [OF Last_Fails(2)]
      o [OF Last_Fails(1)] show ?thesis by auto
  next
    case (Close_Fails tr0 cnt tr1 tr2 e tr)
    have "filter is_close tr2 = filter is_close tr1"
      using Close_Fails(3) write_last_batch_Inr [of w "FLAGS_backend c" tr1 tr2]
      by (auto simp: is_close_def split: if_splits)
    with Close_Fails close_db_Inl [OF Close_Fails(4)] store_Inr_close [OF Close_Fails(2)]
      o [OF Close_Fails(1)] show ?thesis by auto
  next
    case (Completed tr0 cnt tr1 tr2 tr3)
    have "filter is_close tr2 = filter is_close tr1"
      using Completed(3) write_last_batch_Inr [of w "FLAGS_backend c" tr1 tr2]
      by (auto simp: is_close_def split: if_splits)
    with store_Inr_close [OF Completed(2)] o [OF Completed(1)]
    have n: "filter is_close tr2 = []" by simp
    have "tr3 = tr2 @ close_calls (FLAGS_backend c)"
      using Completed(4) by (auto simp: close_db_def close_calls_def split: if_splits)
    with n Completed(5) show ?thesis
      by (auto simp: close_calls_def is_close_def suffix_def)
  qed
qed

theorem close_reached_iff_completed_witness:
  "filter is_close (snd (main default_cmd quiet_world)) = [Mdb_Close, Mdb_Env_Close]
   \<and> fst (main default_cmd quiet_world) = Return 0
   \<and> filter is_close (snd (main default_cmd put_fails_world)) = []
   \<and> fst (main default_cmd put_fails_world) \<noteq> Return 0"
proof -
  have a: "fst (main default_cmd quiet_world) = Return 0" by code_simp
  have b: "fst (main default_cmd put_fails_world) = Fatal ''mdb_put failed''" by code_simp
  have c: "FLAGS_backend default_cmd = ''lmdb''" by (simp add: default_cmd_def)
  from a b c close_reached_iff_completed [of default_cmd quiet_world]
    close_reached_iff_completed [of default_cmd put_fails_world]
  show ?thesis by (simp add: close_calls_def)
qed

subsection \<open>Flags the program does not read\<close>

text \<open>
  C9. The flags \<^verbatim>\<open>--gray\<close>, \<^verbatim>\<open>--resize_width\<close> and \<^verbatim>\<open>--resize_height\<close> have
  no influence: two runs that differ only in them end the same way and issue the
  same calls, hence stage and commit the same records.
\<close>

theorem unused_flags_do_not_matter:
  "main (c\<lparr>FLAGS_gray := g, FLAGS_resize_width := rw, FLAGS_resize_height := rh\<rparr>) w
     = main c w"
proof -
  let ?c = "c\<lparr>FLAGS_gray := g, FLAGS_resize_width := rw, FLAGS_resize_height := rh\<rparr>"
  have "lines_of ?c w = lines_of c w"
    by (simp add: lines_of_def manifest_of_def)
  then show ?thesis
    by (simp add: main_def)
qed

theorem unused_flags_do_not_matter_witness:
  "main (default_cmd\<lparr>FLAGS_gray := True, FLAGS_resize_width := 256,
                      FLAGS_resize_height := 256\<rparr>) quiet_world
     = main default_cmd quiet_world"
  by (rule unused_flags_do_not_matter)

subsection \<open>Paths shorter than four characters\<close>

lemma wrap_min:
  assumes "k < 4"
  shows "unat (min ((of_nat k :: 64 word) - 4) (of_nat k)) = k"
proof -
  have k: "unat (of_nat k :: 64 word) = k"
    using assms by (simp add: unat_of_nat)
  have "unat ((of_nat k :: 64 word) - 4) = 2 ^ 64 + k - 4"
    using assms k by (simp add: unat_sub_if')
  with k assms have "\<not> (of_nat k :: 64 word) - 4 \<le> of_nat k"
    by (simp add: word_le_nat_alt)
  with k show ?thesis by (simp add: min_def)
qed

lemma file_name_base_short:
  assumes "length file_name < 4"
  shows "file_name_base file_name = Some file_name"
  using wrap_min [OF assms] by (simp add: file_name_base_def substr_def string_size_def)

text \<open>
  C10. For a path of fewer than 4 characters the stem computation does not fail:
  \<^verbatim>\<open>size() - 4\<close> wraps around in \<^verbatim>\<open>size_t\<close>, \<^verbatim>\<open>substr\<close> cuts the count
  down to the length of the string, and the stem is the whole path. The record of
  such an entry is built from the whole path, and a run that returns 0 stages it at
  the position of the entry.
\<close>

theorem short_path_keeps_whole_name:
  assumes "length file_name < 4"
  shows "file_name_base file_name = Some file_name
       \<and> record_of line_id (file_name, label)
           = Some (keystr line_id file_name, valstr label)
       \<and> (fst (main c w) = Return 0 \<and> i < length (lines_of c w)
              \<and> lines_of c w ! i = (file_name, label)
            \<longrightarrow> i < length (puts (snd (main c w)))
                \<and> puts (snd (main c w)) ! i = (keystr i file_name, valstr label))"
proof -
  note b = file_name_base_short [OF assms]
  have r: "record_of n (file_name, label) = Some (keystr n file_name, valstr label)" for n
    by (simp add: record_of_def b)
  have "i < length (puts (snd (main c w)))
        \<and> puts (snd (main c w)) ! i = (keystr i file_name, valstr label)"
    if m: "fst (main c w) = Return 0" and i: "i < length (lines_of c w)"
      and e: "lines_of c w ! i = (file_name, label)"
  proof -
    note p = puts_of_completed [OF m]
    from p have len: "length (puts (snd (main c w))) = length (lines_of c w)"
      using length_map [of Some "puts (snd (main c w))"] by (simp add: records_def)
    from i have "records (lines_of c w) ! i = record_of i (lines_of c w ! i)"
      by (simp add: records_def nth_enumerate_eq)
    with p e r have "map Some (puts (snd (main c w))) ! i
        = Some (keystr i file_name, valstr label)" by simp
    with i len show ?thesis by simp
  qed
  with b r show ?thesis by blast
qed

theorem short_path_keeps_whole_name_witness:
  "length ''ab'' < 4 \<and> file_name_base ''ab'' = Some ''ab''
   \<and> fst (main default_cmd short_world) = Return 0
   \<and> 0 < length (lines_of default_cmd short_world)
   \<and> lines_of default_cmd short_world ! 0 = (''ab'', 7)
   \<and> puts (snd (main default_cmd short_world)) ! 0 = (''00000000_ab'', ''0007'')"
proof -
  have a: "length ''ab'' < 4" by simp
  have m: "fst (main default_cmd short_world) = Return 0" by code_simp
  have l: "lines_of default_cmd short_world = [(''ab'', 7)]" by code_simp
  have k: "keystr 0 ''ab'' = ''00000000_ab''" by code_simp
  have v: "valstr 7 = ''0007''" by code_simp
  from short_path_keeps_whole_name [OF a, of 0 7 default_cmd short_world 0] m l k v
  show ?thesis by simp
qed

end
